theory Spec2Isabelle
  imports Main "HOL-Library.AList" "HOL-Library.Sublist"
begin

section \<open>Python values used by the notebook\<close>

text \<open>
  The notebook \<open>gt_object_det/2b. SageMaker Built-In Algo.ipynb\<close> prepares its data in
  three code cells: a case-insensitive lookup of class names in a description table, the
  expansion of a class id to its subclasses in a label hierarchy, and the collection of
  bounding boxes from an annotation table under a quota. Each cell is embedded below.

  A row of \<open>csv.reader\<close> is a list of strings. An insertion-ordered \<open>dict\<close> is an
  association list with distinct keys: \<open>d[k] = v\<close> is \<^const>\<open>AList.update\<close> (the value is
  replaced in place, a new key goes to the end), \<open>del d[k]\<close> is \<^const>\<open>AList.delete\<close> and
  \<open>d.get(k)\<close> is \<^const>\<open>map_of\<close>. Every \<open>raise\<close> of the cells is a value of the type
  \<open>error\<close>: indexing a short row, unpacking a short row, and the explicit
  \<open>ValueError\<close> of the resolver, which carries the listed names.
\<close>

datatype error = IndexError | ValueError_unpack | ValueError_not_found "string list"

text \<open>
  \<open>str.lower()\<close>, on the ASCII letters. A \<^typ>\<open>char\<close> is a byte, so bytes outside
  \<open>A\<close>..\<open>Z\<close> are left alone. No theorem below unfolds this definition: each holds for
  whatever function lowers a name.
\<close>

definition lower_char :: "char \<Rightarrow> char" where
  "lower_char c =
     (let n = (of_char c :: nat) in if 65 \<le> n \<and> n \<le> 90 then char_of (n + 32) else c)"

definition lower :: "string \<Rightarrow> string" where
  "lower s = map lower_char s"

text \<open>The keys of a dict built from a list, in order of first insertion.\<close>

definition dict_keys :: "'a list \<Rightarrow> 'a list" where
  "dict_keys xs = rev (remdups (rev xs))"

section \<open>Step 2: class names to class ids\<close>

text \<open>
  \<^verbatim>\<open>
  class_root_ids = { s: None for s in CLASS_NAMES }
  classes_lower_notfound = { s.lower(): s for s in CLASS_NAMES }
  for row in csv.reader(f):
      row_class_lower = row[1].lower()
      match = classes_lower_notfound.get(row_class_lower)
      if (match is not None):
          class_root_ids[match] = row[0]
          del classes_lower_notfound[row_class_lower]
          if (len(classes_lower_notfound) == 0):
              break
  if len(classes_lower_notfound):
      raise ValueError(... [v for (k,v) in classes_lower_notfound.items()])
  \<close>
\<close>

record resolver_state =
  class_root_ids :: "(string \<times> string option) list"
  classes_lower_notfound :: "(string \<times> string) list"

definition init_resolver :: "string list \<Rightarrow> resolver_state" where
  "init_resolver CLASS_NAMES =
     \<lparr>class_root_ids = fold (\<lambda>s d. AList.update s None d) CLASS_NAMES [],
      classes_lower_notfound = fold (\<lambda>s d. AList.update (lower s) s d) CLASS_NAMES []\<rparr>"

fun scan_class_descriptions ::
  "resolver_state \<Rightarrow> string list list \<Rightarrow> error + resolver_state" where
  "scan_class_descriptions st [] = Inr st"
| "scan_class_descriptions st ((label_id # display_name # _) # rows) =
     (case map_of (classes_lower_notfound st) (lower display_name) of
        Some match \<Rightarrow>
          (let st' = \<lparr>class_root_ids = AList.update match (Some label_id) (class_root_ids st),
                      classes_lower_notfound =
                        AList.delete (lower display_name) (classes_lower_notfound st)\<rparr>
           in if classes_lower_notfound st' = [] then Inr st'
              else scan_class_descriptions st' rows)
      | None \<Rightarrow> scan_class_descriptions st rows)"
| "scan_class_descriptions st (_ # rows) = Inl IndexError"

definition resolve_class_names ::
  "string list \<Rightarrow> string list list \<Rightarrow> error + (string \<times> string option) list" where
  "resolve_class_names CLASS_NAMES table =
     (case scan_class_descriptions (init_resolver CLASS_NAMES) table of
        Inl e \<Rightarrow> Inl e
      | Inr st \<Rightarrow>
          if classes_lower_notfound st \<noteq> []
          then Inl (ValueError_not_found (map snd (classes_lower_notfound st)))
          else Inr (class_root_ids st))"

text \<open>
  What the lookup is meant to compute, for comparison: the id (column 0) of the first
  row of the table whose display name (column 1) equals the name up to case.
\<close>

definition first_match_id :: "string \<Rightarrow> string list list \<Rightarrow> string option" where
  "first_match_id name table =
     map_option (\<lambda>row. row ! 0) (find (\<lambda>row. lower (row ! 1) = lower name) table)"

text \<open>A name has a match when some row's display name equals it up to case.\<close>

definition has_match :: "string \<Rightarrow> string list list \<Rightarrow> bool" where
  "has_match name table = (\<exists>row\<in>set table. lower (row ! 1) = lower name)"

section \<open>Step 2, continued: subclasses in the label hierarchy\<close>

text \<open>
  A node of the hierarchy JSON has a \<open>LabelName\<close> and may have a \<open>Subcategory\<close> list.
  \<^verbatim>\<open>
  def get_all_subclasses(class_id, tree):
      def all_subtree_class_ids(subtree):
          if ("Subcategory" in subtree):
              return set([subtree["LabelName"]]).union(
                  *[all_subtree_class_ids(s) for s in subtree["Subcategory"]])
          else:
              return set([subtree["LabelName"]])
      if (tree["LabelName"] == class_id):
          return all_subtree_class_ids(tree)
      elif "Subcategory" in tree:
          return set().union(*[get_all_subclasses(class_id, s) for s in tree["Subcategory"]])
      else:
          return set()
  \<close>
\<close>

datatype tree = Node (LabelName: string) (Subcategory: "tree list option")

fun all_subtree_class_ids :: "tree \<Rightarrow> string set" where
  "all_subtree_class_ids (Node l sub) =
     (case sub of
        Some ts \<Rightarrow> {l} \<union> \<Union> (set (map all_subtree_class_ids ts))
      | None \<Rightarrow> {l})"

fun get_all_subclasses :: "string \<Rightarrow> tree \<Rightarrow> string set" where
  "get_all_subclasses class_id (Node l sub) =
     (if l = class_id then all_subtree_class_ids (Node l sub)
      else (case sub of
              Some ts \<Rightarrow> \<Union> (set (map (get_all_subclasses class_id) ts))
            | None \<Rightarrow> {}))"

text \<open>The nodes of a tree in pre-order, and their ids.\<close>

fun subtrees :: "tree \<Rightarrow> tree list" where
  "subtrees (Node l sub) =
     Node l sub # (case sub of Some ts \<Rightarrow> concat (map subtrees ts) | None \<Rightarrow> [])"

definition labels :: "tree \<Rightarrow> string list" where
  "labels t = map LabelName (subtrees t)"

definition is_leaf :: "tree \<Rightarrow> bool" where
  "is_leaf t = (Subcategory t = None \<or> Subcategory t = Some [])"

section \<open>Step 3: collecting example images under a quota\<close>

text \<open>
  \<^verbatim>\<open>
  SKIP_IMAGES = {"251d4c429f6f9c39", "065ad49f98157c8d"}
  class_bbs = { name: defaultdict(list) for name in class_id_sets }
  n_images_needed = N_EXAMPLES_PER_CLASS * (BATCH_OFFSET + 1)
  unfilled_class_names = set(CLASS_NAMES)
  for row in csv.reader(f):
      img_id, _, cls_id, conf, xmin, xmax, ymin, ymax, *_ = row
      if (img_id in SKIP_IMAGES):
          continue
      curr_unfilled_class_names = unfilled_class_names.copy()
      for name in curr_unfilled_class_names:
          if (cls_id in class_id_sets[name]):
              class_bbs[name][img_id].append([name, xmin, xmax, ymin, ymax])
              if (len(class_bbs[name]) >= n_images_needed):
                  unfilled_class_names.remove(name)
  \<close>
  \<open>class_id_sets\<close> and \<open>class_bbs\<close> are dicts whose keys are the class names, fixed from
  the start: \<open>class_id_sets\<close> is a function from names to sets of ids and \<open>class_bbs\<close> a
  function from names to image groups, with the key order \<^term>\<open>dict_keys CLASS_NAMES\<close>
  kept beside it. The Python set \<open>unfilled_class_names\<close> is a duplicate-free list; the
  order in which the inner loop visits it does not matter, since each visit reads and
  writes the entry of its own name only (lemma \<open>fold_collect_name_order\<close>).
  The quota and the offset are Python integers.
\<close>

type_synonym box = "string list"
type_synonym image_groups = "(string \<times> box list) list"

definition SKIP_IMAGES :: "string set" where
  "SKIP_IMAGES = {''251d4c429f6f9c39'', ''065ad49f98157c8d''}"

record annotation_row =
  img_id :: string
  cls_id :: string
  conf :: string
  xmin :: string
  xmax :: string
  ymin :: string
  ymax :: string

fun unpack_row :: "string list \<Rightarrow> error + annotation_row" where
  "unpack_row (i # _ # c # cf # x0 # x1 # y0 # y1 # _) =
     Inr \<lparr>img_id = i, cls_id = c, conf = cf, xmin = x0, xmax = x1, ymin = y0, ymax = y1\<rparr>"
| "unpack_row _ = Inl ValueError_unpack"

text \<open>\<open>d[k]\<close> on a \<open>defaultdict(list)\<close>: the list stored under \<open>k\<close>, empty for a new key.\<close>

definition boxes_of :: "image_groups \<Rightarrow> string \<Rightarrow> box list" where
  "boxes_of d k = (case map_of d k of None \<Rightarrow> [] | Some bs \<Rightarrow> bs)"

text \<open>\<open>d[k].append(b)\<close> on a \<open>defaultdict(list)\<close>.\<close>

definition append_box :: "image_groups \<Rightarrow> string \<Rightarrow> box \<Rightarrow> image_groups" where
  "append_box d k b = AList.update k (boxes_of d k @ [b]) d"

record collector_state =
  class_bbs :: "string \<Rightarrow> image_groups"
  unfilled_class_names :: "string list"

definition collect_name ::
  "(string \<Rightarrow> string set) \<Rightarrow> int \<Rightarrow> annotation_row \<Rightarrow> string \<Rightarrow> collector_state
     \<Rightarrow> collector_state" where
  "collect_name class_id_sets n_images_needed r name st =
     (if cls_id r \<in> class_id_sets name then
        (let groups = append_box (class_bbs st name) (img_id r)
                        [name, xmin r, xmax r, ymin r, ymax r];
             st' = st\<lparr>class_bbs := (class_bbs st)(name := groups)\<rparr>
         in if n_images_needed \<le> int (length groups)
            then st'\<lparr>unfilled_class_names := removeAll name (unfilled_class_names st')\<rparr>
            else st')
      else st)"

definition collect_row ::
  "(string \<Rightarrow> string set) \<Rightarrow> int \<Rightarrow> collector_state \<Rightarrow> string list
     \<Rightarrow> error + collector_state" where
  "collect_row class_id_sets n_images_needed st row =
     (case unpack_row row of
        Inl e \<Rightarrow> Inl e
      | Inr r \<Rightarrow>
          if img_id r \<in> SKIP_IMAGES then Inr st
          else Inr (fold (collect_name class_id_sets n_images_needed r)
                      (unfilled_class_names st) st))"

fun stream_rows ::
  "(string \<Rightarrow> string set) \<Rightarrow> int \<Rightarrow> collector_state \<Rightarrow> string list list
     \<Rightarrow> error + collector_state" where
  "stream_rows class_id_sets n_images_needed st [] = Inr st"
| "stream_rows class_id_sets n_images_needed st (row # rows) =
     (case collect_row class_id_sets n_images_needed st row of
        Inl e \<Rightarrow> Inl e
      | Inr st' \<Rightarrow> stream_rows class_id_sets n_images_needed st' rows)"

definition init_collector :: "string list \<Rightarrow> collector_state" where
  "init_collector CLASS_NAMES =
     \<lparr>class_bbs = (\<lambda>name. []), unfilled_class_names = dict_keys CLASS_NAMES\<rparr>"

text \<open>
  \<^verbatim>\<open>
  if (len(unfilled_class_names)):
      print("WARNING: Found fewer than ("
          + f"{N_EXAMPLES_PER_CLASS}x{BATCH_OFFSET+1}={n_images_needed}"
          + ") requested images for the following classes:\n"
          + "\n".join([f"{name} ({len(class_bbs[name])} images)"
                       for name in unfilled_class_names]))
  \<close>
  The printed text is kept as the numbers it is formatted from.
\<close>

record quota_warning =
  examples_per_class :: int
  batches :: int
  images_needed :: int
  classes_found :: "(string \<times> nat) list"

definition warn_unfilled :: "int \<Rightarrow> int \<Rightarrow> collector_state \<Rightarrow> quota_warning option" where
  "warn_unfilled N_EXAMPLES_PER_CLASS BATCH_OFFSET st =
     (if unfilled_class_names st \<noteq> [] then
        Some \<lparr>examples_per_class = N_EXAMPLES_PER_CLASS,
              batches = BATCH_OFFSET + 1,
              images_needed = N_EXAMPLES_PER_CLASS * (BATCH_OFFSET + 1),
              classes_found = map (\<lambda>name. (name, length (class_bbs st name)))
                                (unfilled_class_names st)\<rparr>
      else None)"

text \<open>
  \<^verbatim>\<open>
  bbs = defaultdict(list)
  for class_name in class_bbs:
      class_bbs_all_unfiltered = list(class_bbs[class_name].items())
      class_bbs_batch = class_bbs_all_unfiltered[-N_EXAMPLES_PER_CLASS:]
      class_bbs[class_name] = defaultdict(list, class_bbs_batch)
      for (img_id, boxes) in class_bbs_batch:
          bbs[img_id] = bbs[img_id] + boxes
  image_ids = bbs.keys()
  n_images = len(image_ids)
  \<close>
  The slice \<open>xs[-n:]\<close> follows Python: a negative start counts from the end and is
  clipped at 0, a start of 0 or more is clipped at the length; so \<open>xs[-0:]\<close> is \<open>xs\<close>.
\<close>

definition py_slice_from :: "int \<Rightarrow> 'a list \<Rightarrow> 'a list" where
  "py_slice_from start xs =
     (let len = int (length xs);
          s = (if start < 0 then max (len + start) 0 else min start len)
      in drop (nat s) xs)"

definition add_boxes :: "string \<times> box list \<Rightarrow> image_groups \<Rightarrow> image_groups" where
  "add_boxes g bbs = AList.update (fst g) (boxes_of bbs (fst g) @ snd g) bbs"

definition trim_class ::
  "int \<Rightarrow> string \<Rightarrow> (string \<Rightarrow> image_groups) \<times> image_groups
     \<Rightarrow> (string \<Rightarrow> image_groups) \<times> image_groups" where
  "trim_class N_EXAMPLES_PER_CLASS class_name acc =
     (let class_bbs_all_unfiltered = fst acc class_name;
          class_bbs_batch = py_slice_from (- N_EXAMPLES_PER_CLASS) class_bbs_all_unfiltered
      in ((fst acc)(class_name := class_bbs_batch), fold add_boxes class_bbs_batch (snd acc)))"

record collector_output =
  warning :: "quota_warning option"
  class_bbs_out :: "string \<Rightarrow> image_groups"
  bbs :: image_groups
  n_images :: nat

definition post_process ::
  "int \<Rightarrow> int \<Rightarrow> string list \<Rightarrow> collector_state \<Rightarrow> collector_output" where
  "post_process N_EXAMPLES_PER_CLASS BATCH_OFFSET CLASS_NAMES st =
     (let acc = fold (trim_class N_EXAMPLES_PER_CLASS) (dict_keys CLASS_NAMES) (class_bbs st, [])
      in \<lparr>warning = warn_unfilled N_EXAMPLES_PER_CLASS BATCH_OFFSET st,
          class_bbs_out = fst acc, bbs = snd acc, n_images = length (snd acc)\<rparr>)"

definition collect ::
  "string list \<Rightarrow> (string \<Rightarrow> string set) \<Rightarrow> int \<Rightarrow> int \<Rightarrow> string list list
     \<Rightarrow> error + collector_output" where
  "collect CLASS_NAMES class_id_sets N_EXAMPLES_PER_CLASS BATCH_OFFSET rows =
     (case stream_rows class_id_sets (N_EXAMPLES_PER_CLASS * (BATCH_OFFSET + 1))
             (init_collector CLASS_NAMES) rows of
        Inl e \<Rightarrow> Inl e
      | Inr st \<Rightarrow> Inr (post_process N_EXAMPLES_PER_CLASS BATCH_OFFSET CLASS_NAMES st))"


section \<open>What the collector is compared with\<close>

text \<open>
  The definitions of this section are not cells of the notebook: they say, on the rows of
  the annotation table, what the loop is expected to have collected.

  A row counts for a class when its image is not skipped and its label id is in the id
  set of the class; the box it contributes carries the class name and the four
  coordinates (columns 4 to 7).
\<close>

definition row_matches :: "(string \<Rightarrow> string set) \<Rightarrow> string \<Rightarrow> string list \<Rightarrow> bool" where
  "row_matches class_id_sets name row = (row ! 0 \<notin> SKIP_IMAGES \<and> row ! 2 \<in> class_id_sets name)"

definition row_box :: "string \<Rightarrow> string list \<Rightarrow> box" where
  "row_box name row = [name, row ! 4, row ! 5, row ! 6, row ! 7]"

definition matching_images :: "(string \<Rightarrow> string set) \<Rightarrow> string \<Rightarrow> string list list \<Rightarrow> string list" where
  "matching_images class_id_sets name rows = map (\<lambda>row. row ! 0) (filter (row_matches class_id_sets name) rows)"

text \<open>
  The keys of an insertion-ordered dict after the keys \<open>xs\<close> are inserted in turn, and the
  distinct elements of a list in order of first occurrence.
\<close>

fun add_new :: "'a list \<Rightarrow> 'a list \<Rightarrow> 'a list" where
  "add_new ks [] = ks"
| "add_new ks (x # xs) = add_new (if x \<in> set ks then ks else ks @ [x]) xs"

definition first_occurrences :: "'a list \<Rightarrow> 'a list" where
  "first_occurrences xs = add_new [] xs"

text \<open>
  The loop seen from one class: its image groups and whether it is still unfilled. The
  lemma \<open>stream_rows_class_run\<close> shows that \<^const>\<open>stream_rows\<close> does this for each class.
\<close>

fun class_run ::
  "(string \<Rightarrow> string set) \<Rightarrow> int \<Rightarrow> string \<Rightarrow> image_groups \<times> bool \<Rightarrow> string list list
     \<Rightarrow> image_groups \<times> bool" where
  "class_run cis needed name gu [] = gu"
| "class_run cis needed name gu (row # rows) =
     (if snd gu \<and> row_matches cis name row then
        (let g' = append_box (fst gu) (row ! 0) (row_box name row)
         in class_run cis needed name (g', \<not> needed \<le> int (length g')) rows)
      else class_run cis needed name gu rows)"


text \<open>The image groups a class has accumulated when the stream ends, before trimming.\<close>

definition accumulated ::
  "string list \<Rightarrow> (string \<Rightarrow> string set) \<Rightarrow> int \<Rightarrow> int \<Rightarrow> string list list \<Rightarrow> string
     \<Rightarrow> image_groups" where
  "accumulated CLASS_NAMES cis N OFFSET rows c =
     (case stream_rows cis (N * (OFFSET + 1)) (init_collector CLASS_NAMES) rows of
        Inr st \<Rightarrow> class_bbs st c
      | Inl e \<Rightarrow> [])"

text \<open>A small hierarchy with two levels below the root, used to run the theorems.\<close>

definition example_tree :: tree where
  "example_tree = Node ''/m/0'' (Some [
      Node ''/m/bird'' (Some [Node ''/m/swan'' None, Node ''/m/duck'' (Some [])]),
      Node ''/m/01x3z'' None,
      Node ''/m/0jbk'' (Some [Node ''/m/kitten'' None])])"

text \<open>
  A description table with a third column in one row and two rows for the same name up
  to case, used to run the theorems.
\<close>

definition example_table :: "string list list" where
  "example_table = [[''/m/0jbk'', ''Cat'', ''extra''], [''/m/dup'', ''CAT''], [''/m/01x3z'', ''Boot'']]"

text \<open>
  Annotation rows: the three rows of the specification's scenario, and a table with a
  header line, two rows for one image, a skipped image and a second image.
\<close>

definition example_class_id_sets :: "string \<Rightarrow> string set" where
  "example_class_id_sets = (\<lambda>name. {})(''Boot'' := {''/m/01x3z''}, ''Cat'' := {''/m/0jbk''})"

definition example_rows :: "string list list" where
  "example_rows =
    [[''img1'', ''src'', ''/m/01x3z'', ''1'', ''0.1'', ''0.2'', ''0.3'', ''0.4''],
     [''img1'', ''src'', ''/m/0jbk'', ''1'', ''0.5'', ''0.6'', ''0.7'', ''0.8''],
     [''img2'', ''src'', ''/m/01x3z'', ''1'', ''0.0'', ''1.0'', ''0.0'', ''1.0'']]"

definition cat_rows :: "string list list" where
  "cat_rows =
    [[''ImageID'', ''Source'', ''LabelName'', ''Confidence'', ''XMin'', ''XMax'', ''YMin'', ''YMax'', ''IsOccluded''],
     [''img1'', ''src'', ''/m/0jbk'', ''1'', ''0.1'', ''0.2'', ''0.3'', ''0.4''],
     [''img1'', ''src'', ''/m/0jbk'', ''1'', ''0.5'', ''0.6'', ''0.7'', ''0.8''],
     [''251d4c429f6f9c39'', ''src'', ''/m/0jbk'', ''1'', ''0'', ''1'', ''0'', ''1''],
     [''img2'', ''src'', ''/m/0jbk'', ''1'', ''0.0'', ''1.0'', ''0.0'', ''1.0'']]"

section \<open>The class-name lookup\<close>

lemma find_snoc:
  "find P (xs @ [x]) =
     (case find P xs of Some y \<Rightarrow> Some y | None \<Rightarrow> if P x then Some x else None)"
  by (induction xs) simp_all

lemma find_Some_set: "find P xs = Some x \<Longrightarrow> P x \<and> x \<in> set xs"
  by (induction xs) (auto split: if_splits)

lemma map_of_fold_update:
  "map_of (fold (\<lambda>s d. AList.update (g s) (h s) d) xs d) k =
     (case find (\<lambda>s. g s = k) (rev xs) of Some s \<Rightarrow> Some (h s) | None \<Rightarrow> map_of d k)"
proof (induction xs arbitrary: d)
  case Nil
  then show ?case by simp
next
  case (Cons x xs)
  show ?case
    by (simp add: Cons.IH find_snoc update_conv' split: option.splits)
qed

lemma distinct_fold_update:
  "distinct (map fst d) \<Longrightarrow> distinct (map fst (fold (\<lambda>s d. AList.update (g s) (h s) d) xs d))"
  by (induction xs arbitrary: d) (simp_all add: distinct_update)

lemma keys_fold_update:
  "fst ` set (fold (\<lambda>s d. AList.update (g s) (h s) d) xs d) = fst ` set d \<union> g ` set xs"
proof -
  have "dom (map_of (fold (\<lambda>s d. AList.update (g s) (h s) d) xs d)) = dom (map_of d) \<union> g ` set xs"
  proof (induction xs arbitrary: d)
    case Nil
    then show ?case by simp
  next
    case (Cons x xs)
    then show ?case by (auto simp: update_conv')
  qed
  then show ?thesis by (simp add: dom_map_of_conv_image_fst)
qed

lemma find_inj_on:
  assumes "inj_on f (set xs)" "n \<in> set xs"
  shows "find (\<lambda>s. f s = f n) (rev xs) = Some n"
proof (cases "find (\<lambda>s. f s = f n) (rev xs)")
  case None
  then show ?thesis using assms(2) by (auto simp: find_None_iff)
next
  case (Some s)
  then have "s \<in> set xs" "f s = f n"
    by (auto dest: find_Some_set)
  then show ?thesis using assms Some by (auto dest: inj_onD)
qed

lemma init_root_map_of:
  "map_of (class_root_ids (init_resolver N)) n = (if n \<in> set N then Some None else None)"
  by (auto simp: init_resolver_def map_of_fold_update find_None_iff
      dest: find_Some_set split: option.splits)

lemma init_root_keys: "fst ` set (class_root_ids (init_resolver N)) = set N"
  by (simp add: init_resolver_def keys_fold_update)

lemma init_root_distinct: "distinct (map fst (class_root_ids (init_resolver N)))"
  by (simp add: init_resolver_def distinct_fold_update)

lemma init_notfound_distinct: "distinct (map fst (classes_lower_notfound (init_resolver N)))"
  by (simp add: init_resolver_def distinct_fold_update)

lemma init_notfound_set:
  assumes "inj_on lower (set N)"
  shows "set (classes_lower_notfound (init_resolver N)) = (\<lambda>n. (lower n, n)) ` set N"
proof -
  have "((k, v) \<in> set (classes_lower_notfound (init_resolver N))) = (v \<in> set N \<and> k = lower v)"
    for k v
  proof -
    have "((k, v) \<in> set (classes_lower_notfound (init_resolver N)))
        = (map_of (classes_lower_notfound (init_resolver N)) k = Some v)"
      using init_notfound_distinct by simp
    also have "\<dots> = (find (\<lambda>s. lower s = k) (rev N) = Some v)"
      by (simp add: init_resolver_def map_of_fold_update split: option.splits)
    also have "\<dots> = (v \<in> set N \<and> k = lower v)"
    proof
      assume "find (\<lambda>s. lower s = k) (rev N) = Some v"
      then show "v \<in> set N \<and> k = lower v" by (auto dest: find_Some_set)
    next
      assume "v \<in> set N \<and> k = lower v"
      then show "find (\<lambda>s. lower s = k) (rev N) = Some v"
        using find_inj_on[OF assms, of v] by simp
    qed
    finally show ?thesis .
  qed
  then show ?thesis by auto
qed


lemma first_match_id_Nil [simp]: "first_match_id n [] = None"
  by (simp add: first_match_id_def)

lemma first_match_id_Cons [simp]:
  "first_match_id n (row # rows) =
     (if lower (row ! 1) = lower n then Some (row ! 0) else first_match_id n rows)"
  by (simp add: first_match_id_def)

lemma first_match_id_None: "first_match_id n rows = None \<longleftrightarrow> (\<forall>row\<in>set rows. lower (row ! 1) \<noteq> lower n)"
  by (induction rows) auto

lemma delete_filter: "AList.delete k al = filter (\<lambda>(k', v). k' \<noteq> k) al"
  by (induction al) auto

lemma scan_class_descriptions_result:
  assumes "\<forall>row\<in>set rows. 2 \<le> length row"
    and inj: "inj_on lower S"
    and "\<forall>(k, v)\<in>set (classes_lower_notfound st). v \<in> S \<and> k = lower v
          \<and> v \<in> fst ` set (class_root_ids st)"
  shows "\<exists>st'. scan_class_descriptions st rows = Inr st'
    \<and> classes_lower_notfound st' =
        filter (\<lambda>(k, v). \<forall>row\<in>set rows. lower (row ! 1) \<noteq> k) (classes_lower_notfound st)
    \<and> map fst (class_root_ids st') = map fst (class_root_ids st)
    \<and> (\<forall>n\<in>S. map_of (class_root_ids st') n =
          (if lower n \<in> fst ` set (classes_lower_notfound st) then
             (case first_match_id n rows of
                Some i \<Rightarrow> Some (Some i) | None \<Rightarrow> map_of (class_root_ids st) n)
           else map_of (class_root_ids st) n))"
  using assms(1,3)
proof (induction rows arbitrary: st)
  case Nil
  then show ?case by simp
next
  case (Cons row rows)
  let ?nf = "classes_lower_notfound st"
  let ?root = "class_root_ids st"
  from Cons.prems(1) obtain a b rest where row: "row = a # b # rest"
    by (cases row; cases "tl row") auto
  let ?k = "lower b"
  have wf: "\<forall>row\<in>set rows. 2 \<le> length row" using Cons.prems(1) by simp
  show ?case
  proof (cases "map_of ?nf ?k")
    case None
    then have nk: "?k \<notin> fst ` set ?nf" by (simp add: map_of_eq_None_iff)
    from Cons.IH[OF wf Cons.prems(2)] obtain st' where st':
      "scan_class_descriptions st rows = Inr st'"
      "classes_lower_notfound st' =
        filter (\<lambda>(k, v). \<forall>row\<in>set rows. lower (row ! 1) \<noteq> k) ?nf"
      "map fst (class_root_ids st') = map fst ?root"
      "\<forall>n\<in>S. map_of (class_root_ids st') n =
          (if lower n \<in> fst ` set ?nf then
             (case first_match_id n rows of
                Some i \<Rightarrow> Some (Some i) | None \<Rightarrow> map_of ?root n)
           else map_of ?root n)"
      by blast
    have 1: "scan_class_descriptions st (row # rows) = Inr st'"
      using None st'(1) row by simp
    have 2: "filter (\<lambda>(k, v). \<forall>r\<in>set (row # rows). lower (r ! 1) \<noteq> k) ?nf
        = filter (\<lambda>(k, v). \<forall>row\<in>set rows. lower (row ! 1) \<noteq> k) ?nf"
      using nk row by (intro filter_cong) (auto simp: image_iff)
    have 3: "first_match_id n (row # rows) = first_match_id n rows"
      if "lower n \<in> fst ` set ?nf" for n
      using that nk row by (auto simp: image_iff)
    show ?thesis
      using 1 2 3 st'(2,3,4) by (intro exI[of _ st']) (simp del: first_match_id_Cons)
  next
    case (Some match)
    then have mem: "(?k, match) \<in> set ?nf" by (rule map_of_SomeD)
    then have m: "match \<in> S" "?k = lower match" "match \<in> fst ` set ?root"
      using Cons.prems(2) by auto
    define st1 where "st1 = \<lparr>class_root_ids = AList.update match (Some a) ?root,
        classes_lower_notfound = AList.delete ?k ?nf\<rparr>"
    have keys1: "map fst (class_root_ids st1) = map fst ?root"
      using m(3) by (simp add: st1_def update_keys)
    have val1: "map_of (class_root_ids st1) n = (if n = match then Some (Some a) else map_of ?root n)"
      for n
      by (simp add: st1_def update_conv')
    have nf1: "classes_lower_notfound st1 = filter (\<lambda>(k', v). k' \<noteq> ?k) ?nf"
      by (simp add: st1_def delete_filter)
    have other: "lower n \<noteq> ?k" if "n \<in> S" "n \<noteq> match" for n
      using that m(1,2) inj by (auto dest: inj_onD)
    have fm_match: "first_match_id match (row # rows) = Some a"
      using m(2) row by simp
    have fm_other: "first_match_id n (row # rows) = first_match_id n rows"
      if "n \<in> S" "n \<noteq> match" for n
      using other[OF that] row by simp
    show ?thesis
    proof (cases "classes_lower_notfound st1 = []")
      case True
      have 1: "scan_class_descriptions st (row # rows) = Inr st1"
        using Some True row by (simp add: st1_def Let_def)
      have allk: "\<forall>(k', v)\<in>set ?nf. k' = ?k"
        using True nf1 by (auto simp: filter_empty_conv)
      have 2: "filter (\<lambda>(k, v). \<forall>r\<in>set (row # rows). lower (r ! 1) \<noteq> k) ?nf = []"
        using allk row by (auto simp: filter_empty_conv)
      have 4: "map_of (class_root_ids st1) n =
          (if lower n \<in> fst ` set ?nf then
             (case first_match_id n (row # rows) of
                Some i \<Rightarrow> Some (Some i) | None \<Rightarrow> map_of ?root n)
           else map_of ?root n)" if n: "n \<in> S" for n
      proof (cases "n = match")
        case True
        then show ?thesis using mem m(2) fm_match val1
          by (auto simp del: first_match_id_Cons simp: image_iff)
      next
        case False
        have "lower n \<notin> fst ` set ?nf"
          using allk other[OF n False] by auto
        then show ?thesis using False val1 by simp
      qed
      show ?thesis
        using 1 2 4 keys1 True by (intro exI[of _ st1]) (simp del: first_match_id_Cons)
    next
      case False
      have step: "scan_class_descriptions st (row # rows) = scan_class_descriptions st1 rows"
        using Some False row by (simp add: st1_def Let_def)
      have inv1: "\<forall>(k, v)\<in>set (classes_lower_notfound st1). v \<in> S \<and> k = lower v
          \<and> v \<in> fst ` set (class_root_ids st1)"
      proof -
        have "fst ` set (class_root_ids st1) = fst ` set ?root"
          using keys1 by (metis set_map)
        then show ?thesis using Cons.prems(2) nf1 by auto
      qed
      from Cons.IH[OF wf inv1] obtain st' where st':
        "scan_class_descriptions st1 rows = Inr st'"
        "classes_lower_notfound st' =
          filter (\<lambda>(k, v). \<forall>row\<in>set rows. lower (row ! 1) \<noteq> k) (classes_lower_notfound st1)"
        "map fst (class_root_ids st') = map fst (class_root_ids st1)"
        "\<forall>n\<in>S. map_of (class_root_ids st') n =
            (if lower n \<in> fst ` set (classes_lower_notfound st1) then
               (case first_match_id n rows of
                  Some i \<Rightarrow> Some (Some i) | None \<Rightarrow> map_of (class_root_ids st1) n)
             else map_of (class_root_ids st1) n)"
        by blast
      have 2: "classes_lower_notfound st' =
          filter (\<lambda>(k, v). \<forall>r\<in>set (row # rows). lower (r ! 1) \<noteq> k) ?nf"
        unfolding st'(2) nf1 filter_filter using row
        by (intro filter_cong) auto
      have 4: "map_of (class_root_ids st') n =
          (if lower n \<in> fst ` set ?nf then
             (case first_match_id n (row # rows) of
                Some i \<Rightarrow> Some (Some i) | None \<Rightarrow> map_of ?root n)
           else map_of ?root n)" if n: "n \<in> S" for n
      proof (cases "n = match")
        case True
        have "lower n \<notin> fst ` set (classes_lower_notfound st1)"
          using True m(2) nf1 by auto
        then have "map_of (class_root_ids st') n = Some (Some a)"
          using st'(4) n True val1 by simp
        then show ?thesis using True mem m(2) fm_match
          by (auto simp del: first_match_id_Cons simp: image_iff)
      next
        case False
        have "(lower n \<in> fst ` set (classes_lower_notfound st1)) = (lower n \<in> fst ` set ?nf)"
          unfolding nf1 using other[OF n False] by force
        then show ?thesis
          using st'(4) n False val1 fm_other[OF n False]
          by (simp del: first_match_id_Cons split: option.splits)
      qed
      show ?thesis
        using step st'(1) 2 4 st'(3) keys1
        by (intro exI[of _ st']) (simp del: first_match_id_Cons)
    qed
  qed
qed


lemma first_match_id_has_match: "first_match_id n rows = None \<longleftrightarrow> \<not> has_match n rows"
  by (auto simp: first_match_id_None has_match_def)

lemma scan_init_resolver:
  assumes inj: "inj_on lower (set N)" and wf: "\<forall>row\<in>set table. 2 \<le> length row"
  shows "\<exists>st. scan_class_descriptions (init_resolver N) table = Inr st
    \<and> distinct (map fst (class_root_ids st))
    \<and> set (map fst (class_root_ids st)) = set N
    \<and> (\<forall>n\<in>set N. map_of (class_root_ids st) n = Some (first_match_id n table))
    \<and> distinct (map snd (classes_lower_notfound st))
    \<and> set (map snd (classes_lower_notfound st)) = {n \<in> set N. \<not> has_match n table}"
proof -
  let ?st0 = "init_resolver N"
  have nf0: "set (classes_lower_notfound ?st0) = (\<lambda>n. (lower n, n)) ` set N"
    by (rule init_notfound_set[OF inj])
  have inv: "\<forall>(k, v)\<in>set (classes_lower_notfound ?st0). v \<in> set N \<and> k = lower v
      \<and> v \<in> fst ` set (class_root_ids ?st0)"
    using nf0 by (auto simp: init_root_keys)
  from scan_class_descriptions_result[OF wf inj inv] obtain st where st:
    "scan_class_descriptions ?st0 table = Inr st"
    "classes_lower_notfound st =
        filter (\<lambda>(k, v). \<forall>row\<in>set table. lower (row ! 1) \<noteq> k) (classes_lower_notfound ?st0)"
    "map fst (class_root_ids st) = map fst (class_root_ids ?st0)"
    "\<forall>n\<in>set N. map_of (class_root_ids st) n =
          (if lower n \<in> fst ` set (classes_lower_notfound ?st0) then
             (case first_match_id n table of
                Some i \<Rightarrow> Some (Some i) | None \<Rightarrow> map_of (class_root_ids ?st0) n)
           else map_of (class_root_ids ?st0) n)"
    by blast
  have 1: "distinct (map fst (class_root_ids st))"
    using st(3) init_root_distinct by simp
  have 2: "set (map fst (class_root_ids st)) = set N"
    using st(3) init_root_keys[of N] by simp
  have 3: "map_of (class_root_ids st) n = Some (first_match_id n table)" if "n \<in> set N" for n
  proof -
    have "lower n \<in> fst ` set (classes_lower_notfound ?st0)"
      using that nf0 by (auto simp: image_iff)
    then show ?thesis
      using st(4) that by (simp add: init_root_map_of split: option.splits)
  qed
  have e: "map lower (map snd (classes_lower_notfound ?st0)) = map fst (classes_lower_notfound ?st0)"
    using nf0 by auto
  have "distinct (map lower (map snd (classes_lower_notfound ?st0)))"
    unfolding e by (rule init_notfound_distinct)
  then have "distinct (map snd (classes_lower_notfound ?st0))"
    by (simp only: distinct_map)
  then have 4: "distinct (map snd (classes_lower_notfound st))"
    unfolding st(2) by (rule distinct_map_filter)
  have 5: "set (map snd (classes_lower_notfound st)) = {n \<in> set N. \<not> has_match n table}"
    unfolding st(2) using nf0 by (auto simp: has_match_def image_iff) 
  show ?thesis using st(1) 1 2 3 4 5 by blast
qed


lemma first_match_id_lower:
  "lower a = lower b \<Longrightarrow> first_match_id a table = first_match_id b table"
  by (simp add: first_match_id_def)

lemma has_match_lower: "lower a = lower b \<Longrightarrow> has_match a table = has_match b table"
  by (simp add: has_match_def)

lemma resolve_class_names_all_matched:
  assumes inj: "inj_on lower (set N)" and wf: "\<forall>row\<in>set table. 2 \<le> length row"
    and all: "\<forall>n\<in>set N. has_match n table"
  shows "\<exists>ids. resolve_class_names N table = Inr ids \<and> distinct (map fst ids)
    \<and> set (map fst ids) = set N
    \<and> (\<forall>n\<in>set N. map_of ids n = Some (first_match_id n table))"
proof -
  from scan_init_resolver[OF inj wf] obtain st where st:
    "scan_class_descriptions (init_resolver N) table = Inr st"
    "distinct (map fst (class_root_ids st))"
    "set (map fst (class_root_ids st)) = set N"
    "\<forall>n\<in>set N. map_of (class_root_ids st) n = Some (first_match_id n table)"
    "set (map snd (classes_lower_notfound st)) = {n \<in> set N. \<not> has_match n table}"
    by blast
  have "set (map snd (classes_lower_notfound st)) = {}" using st(5) all by auto
  then have "classes_lower_notfound st = []" by simp
  then have "resolve_class_names N table = Inr (class_root_ids st)"
    using st(1) by (simp add: resolve_class_names_def)
  then show ?thesis using st(2,3,4) by blast
qed

text \<open>
  C4 (amended). Let no two requested names differ only by case (\<open>lower\<close> is injective
  on the request), let every row of the table have its two columns, and let every
  requested name have a row whose display name equals it up to case. Then the lookup
  succeeds with one entry per requested name, and the entry of a name is the id of the
  first such row in table order. Respelling the request in another case (\<open>N'\<close>, equal to
  \<open>N\<close> position by position up to case) gives every position the same id.
\<close>

theorem resolve_class_names_first_match:
  assumes "inj_on lower (set N)" and "inj_on lower (set N')" and "map lower N' = map lower N"
    and "\<forall>row\<in>set table. 2 \<le> length row" and "\<forall>n\<in>set N. has_match n table"
  shows "\<exists>ids ids'. resolve_class_names N table = Inr ids
      \<and> distinct (map fst ids) \<and> set (map fst ids) = set N
      \<and> (\<forall>n\<in>set N. \<exists>i. first_match_id n table = Some i \<and> map_of ids n = Some (Some i))
      \<and> resolve_class_names N' table = Inr ids'
      \<and> (\<forall>j<length N. map_of ids' (N' ! j) = map_of ids (N ! j))"
proof -
  have len: "length N' = length N" using assms(3) by (metis length_map)
  have low: "lower (N' ! j) = lower (N ! j)" if "j < length N" for j
    using assms(3) that len by (metis nth_map)
  have all': "\<forall>n\<in>set N'. has_match n table"
  proof
    fix n assume "n \<in> set N'"
    then obtain j where j: "j < length N" "n = N' ! j" using len by (metis in_set_conv_nth)
    then have "has_match (N ! j) table" using assms(5) by simp
    then show "has_match n table" using has_match_lower[OF low[OF j(1)]] j(2) by simp
  qed
  from resolve_class_names_all_matched[OF assms(1,4,5)] obtain ids where ids:
    "resolve_class_names N table = Inr ids" "distinct (map fst ids)" "set (map fst ids) = set N"
    "\<forall>n\<in>set N. map_of ids n = Some (first_match_id n table)"
    by blast
  from resolve_class_names_all_matched[OF assms(2,4) all'] obtain ids' where ids':
    "resolve_class_names N' table = Inr ids'"
    "\<forall>n\<in>set N'. map_of ids' n = Some (first_match_id n table)"
    by blast
  have found: "\<exists>i. first_match_id n table = Some i \<and> map_of ids n = Some (Some i)"
    if "n \<in> set N" for n
  proof -
    have "first_match_id n table \<noteq> None"
      using assms(5) that by (simp add: first_match_id_has_match)
    then show ?thesis using ids(4) that by auto
  qed
  have same: "map_of ids' (N' ! j) = map_of ids (N ! j)" if "j < length N" for j
  proof -
    have "map_of ids' (N' ! j) = Some (first_match_id (N' ! j) table)"
      using ids'(2) that len by simp
    also have "\<dots> = Some (first_match_id (N ! j) table)"
      using first_match_id_lower[OF low[OF that]] by simp
    also have "\<dots> = map_of ids (N ! j)" using ids(4) that by simp
    finally show ?thesis .
  qed
  show ?thesis using ids(1,2,3) ids'(1) found same by blast
qed

lemma lower_examples:
  "lower ''Cat'' = ''cat''" "lower ''CAT'' = ''cat''" "lower ''cat'' = ''cat''"
  "lower ''Boot'' = ''boot''" "lower ''BOOT'' = ''boot''" "lower ''Dog'' = ''dog''"
  by code_simp+

theorem resolve_class_names_first_match_witness:
  "inj_on lower (set [''Boot'', ''Cat'']) \<and> inj_on lower (set [''BOOT'', ''cat''])
   \<and> map lower [''BOOT'', ''cat''] = map lower [''Boot'', ''Cat'']
   \<and> list_all (\<lambda>row. 2 \<le> length row) example_table
   \<and> has_match ''Boot'' example_table \<and> has_match ''Cat'' example_table
   \<and> resolve_class_names [''Boot'', ''Cat''] example_table
       = Inr [(''Boot'', Some ''/m/01x3z''), (''Cat'', Some ''/m/0jbk'')]
   \<and> resolve_class_names [''BOOT'', ''cat''] example_table
       = Inr [(''BOOT'', Some ''/m/01x3z''), (''cat'', Some ''/m/0jbk'')]
   \<and> (\<exists>ids ids'. resolve_class_names [''Boot'', ''Cat''] example_table = Inr ids
      \<and> distinct (map fst ids) \<and> set (map fst ids) = set [''Boot'', ''Cat'']
      \<and> (\<forall>n\<in>set [''Boot'', ''Cat'']. \<exists>i. first_match_id n example_table = Some i
            \<and> map_of ids n = Some (Some i))
      \<and> resolve_class_names [''BOOT'', ''cat''] example_table = Inr ids'
      \<and> (\<forall>j<length [''Boot'', ''Cat''].
            map_of ids' ([''BOOT'', ''cat''] ! j) = map_of ids ([''Boot'', ''Cat''] ! j)))"
proof -
  have 1: "inj_on lower (set [''Boot'', ''Cat''])" by (simp add: lower_examples)
  have 2: "inj_on lower (set [''BOOT'', ''cat''])" by (simp add: lower_examples)
  have 3: "map lower [''BOOT'', ''cat''] = map lower [''Boot'', ''Cat'']"
    by (simp add: lower_examples)
  have 4: "\<forall>row\<in>set example_table. 2 \<le> length row" by (simp add: example_table_def)
  have 5: "\<forall>n\<in>set [''Boot'', ''Cat'']. has_match n example_table"
    by (simp add: example_table_def has_match_def lower_examples)
  have 6: "list_all (\<lambda>row. 2 \<le> length row) example_table"
    using 4 by (simp add: list_all_iff)
  have 7: "has_match ''Boot'' example_table \<and> has_match ''Cat'' example_table"
    using 5 by simp
  have 8: "resolve_class_names [''Boot'', ''Cat''] example_table
       = Inr [(''Boot'', Some ''/m/01x3z''), (''Cat'', Some ''/m/0jbk'')]"
    by code_simp
  have 9: "resolve_class_names [''BOOT'', ''cat''] example_table
       = Inr [(''BOOT'', Some ''/m/01x3z''), (''cat'', Some ''/m/0jbk'')]"
    by code_simp
  show ?thesis
    using resolve_class_names_first_match[OF 1 2 3 4 5] 1 2 3 6 7 8 9 by blast
qed

text \<open>
  C4 as stated fails when two requested names are case variants of each other: both have
  the one matching row, the lookup returns without an error, and the first spelling is
  left without an id (\<open>None\<close>).
\<close>

theorem resolve_class_names_collision:
  "has_match ''cat'' [[''/m/0jbk'', ''Cat'']] \<and> has_match ''Cat'' [[''/m/0jbk'', ''Cat'']]
   \<and> resolve_class_names [''cat'', ''Cat''] [[''/m/0jbk'', ''Cat'']]
       = Inr [(''cat'', None), (''Cat'', Some ''/m/0jbk'')]"
  by code_simp

text \<open>
  C5 (amended). Let no two requested names differ only by case and let every row of the
  table have its two columns. If some requested name matches no row up to case, the lookup
  fails with the \<open>ValueError\<close> that lists exactly the requested names without a match,
  each once; if every requested name has a match, it does not fail.
\<close>

theorem resolve_class_names_not_found:
  assumes "inj_on lower (set N)" and "\<forall>row\<in>set table. 2 \<le> length row"
  shows "((\<exists>n\<in>set N. \<not> has_match n table) \<longrightarrow>
           (\<exists>l. resolve_class_names N table = Inl (ValueError_not_found l) \<and> distinct l
              \<and> set l = {n \<in> set N. \<not> has_match n table}))
      \<and> ((\<forall>n\<in>set N. has_match n table) \<longrightarrow> (\<exists>ids. resolve_class_names N table = Inr ids))"
proof -
  from scan_init_resolver[OF assms] obtain st where st:
    "scan_class_descriptions (init_resolver N) table = Inr st"
    "distinct (map snd (classes_lower_notfound st))"
    "set (map snd (classes_lower_notfound st)) = {n \<in> set N. \<not> has_match n table}"
    by blast
  have 1: "\<exists>l. resolve_class_names N table = Inl (ValueError_not_found l) \<and> distinct l
              \<and> set l = {n \<in> set N. \<not> has_match n table}"
    if "\<exists>n\<in>set N. \<not> has_match n table"
  proof -
    have "set (map snd (classes_lower_notfound st)) \<noteq> {}" using st(3) that by auto
    then have "classes_lower_notfound st \<noteq> []" by auto
    then have "resolve_class_names N table
        = Inl (ValueError_not_found (map snd (classes_lower_notfound st)))"
      using st(1) by (simp add: resolve_class_names_def)
    then show ?thesis using st(2,3) by blast
  qed
  have 2: "\<exists>ids. resolve_class_names N table = Inr ids" if "\<forall>n\<in>set N. has_match n table"
    using resolve_class_names_all_matched[OF assms that] by blast
  show ?thesis using 1 2 by blast
qed

theorem resolve_class_names_not_found_witness:
  "inj_on lower (set [''Boot'', ''Cat'', ''Dog''])
   \<and> list_all (\<lambda>row. 2 \<le> length row) [[''/m/0jbk'', ''CAT'']]
   \<and> (\<exists>n\<in>set [''Boot'', ''Cat'', ''Dog'']. \<not> has_match n [[''/m/0jbk'', ''CAT'']])
   \<and> (\<exists>l. resolve_class_names [''Boot'', ''Cat'', ''Dog''] [[''/m/0jbk'', ''CAT'']]
              = Inl (ValueError_not_found l) \<and> distinct l \<and> set l = {''Boot'', ''Dog''})
   \<and> inj_on lower (set [''Cat''])
   \<and> has_match ''Cat'' [[''/m/0jbk'', ''CAT'']]
   \<and> (\<exists>ids. resolve_class_names [''Cat''] [[''/m/0jbk'', ''CAT'']] = Inr ids)"
proof -
  have 1: "inj_on lower (set [''Boot'', ''Cat'', ''Dog''])" by (simp add: lower_examples)
  have 2: "\<forall>row\<in>set [[''/m/0jbk'', ''CAT'']]. 2 \<le> length row" by simp
  have 3: "\<exists>n\<in>set [''Boot'', ''Cat'', ''Dog'']. \<not> has_match n [[''/m/0jbk'', ''CAT'']]"
    by (simp add: has_match_def lower_examples)
  have 4: "{n \<in> set [''Boot'', ''Cat'', ''Dog'']. \<not> has_match n [[''/m/0jbk'', ''CAT'']]}
      = {''Boot'', ''Dog''}"
    by (auto simp: has_match_def lower_examples)
  have 5: "inj_on lower (set [''Cat''])" by simp
  have 6: "\<forall>n\<in>set [''Cat'']. has_match n [[''/m/0jbk'', ''CAT'']]"
    by (simp add: has_match_def lower_examples)
  show ?thesis
    using resolve_class_names_not_found[OF 1 2] resolve_class_names_not_found[OF 5 2]
      1 2 3 4 5 6 by auto
qed

text \<open>
  C5 as stated fails on the same kind of request: neither spelling has a match, and the
  error lists only the last spelling.
\<close>

theorem resolve_class_names_not_found_collision:
  "\<not> has_match ''cat'' [[''/m/01x3z'', ''Boot'']] \<and> \<not> has_match ''Cat'' [[''/m/01x3z'', ''Boot'']]
   \<and> resolve_class_names [''cat'', ''Cat''] [[''/m/01x3z'', ''Boot'']]
       = Inl (ValueError_not_found [''Cat''])"
  by code_simp

section \<open>The label hierarchy: what the search returns\<close>

lemma labels_None [simp]: "labels (Node l None) = [l]"
  by (simp add: labels_def)

lemma labels_Some [simp]: "labels (Node l (Some ts)) = l # concat (map labels ts)"
  by (simp add: labels_def[abs_def] map_concat comp_def)

lemma get_all_subclasses_absent:
  "class_id \<notin> set (labels t) \<Longrightarrow> get_all_subclasses class_id t = {}"
proof (induction class_id t rule: get_all_subclasses.induct)
  case (1 class_id l sub)
  show ?case
  proof (cases sub)
    case None
    with 1(2) show ?thesis by auto
  next
    case (Some ts)
    have ne: "l \<noteq> class_id" using 1(2) Some by auto
    have "get_all_subclasses class_id s = {}" if "s \<in> set ts" for s
    proof -
      have "class_id \<notin> set (labels s)"
        using 1(2) that Some by auto
      then show ?thesis using 1(1)[OF ne Some that] by blast
    qed
    then show ?thesis using Some ne by simp
  qed
qed

lemma all_subtree_class_ids_labels: "all_subtree_class_ids t = set (labels t)"
proof (induction t rule: all_subtree_class_ids.induct)
  case (1 l sub)
  show ?case
  proof (cases sub)
    case None
    then show ?thesis by simp
  next
    case (Some ts)
    have "all_subtree_class_ids s = set (labels s)" if "s \<in> set ts" for s
      using 1 Some that by simp
    then show ?thesis using Some by auto
  qed
qed

lemma subtrees_self: "t \<in> set (subtrees t)"
  by (cases t) simp

lemma subtrees_child:
  "s \<in> set ts \<Longrightarrow> m \<in> set (subtrees s) \<Longrightarrow> m \<in> set (subtrees (Node l (Some ts)))"
  by auto

lemma subtrees_cases:
  assumes "n \<in> set (subtrees (Node l sub))"
  obtains "n = Node l sub"
  | ts s where "sub = Some ts" "s \<in> set ts" "n \<in> set (subtrees s)"
  using assms by (auto split: option.splits)

lemma subtrees_trans:
  "n \<in> set (subtrees t) \<Longrightarrow> m \<in> set (subtrees n) \<Longrightarrow> m \<in> set (subtrees t)"
proof (induction t rule: subtrees.induct)
  case (1 l sub)
  from 1(2) show ?case
  proof (cases rule: subtrees_cases)
    case 1
    with "1.prems" show ?thesis by simp
  next
    case (2 ts s)
    then have "m \<in> set (subtrees s)" using "1.IH" "1.prems"(2) by blast
    then show ?thesis using 2 subtrees_child by blast
  qed
qed

text \<open>
  When the ids of the tree are pairwise different, the search for the id of a node \<open>n\<close>
  ends in \<open>n\<close>: a child that does not hold \<open>n\<close> does not hold its id either and gives
  the empty set.
\<close>

lemma get_all_subclasses_found:
  "distinct (labels t) \<Longrightarrow> n \<in> set (subtrees t) \<Longrightarrow>
   get_all_subclasses (LabelName n) t = all_subtree_class_ids n"
proof (induction t rule: subtrees.induct)
  case (1 l sub)
  have inj: "inj_on LabelName (set (subtrees (Node l sub)))"
    using "1.prems"(1) by (simp only: labels_def distinct_map)
  show ?case
  proof (cases "l = LabelName n")
    case True
    have "LabelName n = LabelName (Node l sub)" using True by simp
    then have "n = Node l sub"
      by (rule inj_onD[OF inj _ "1.prems"(2) subtrees_self])
    then show ?thesis by simp
  next
    case False
    from "1.prems"(2) obtain ts s
      where s: "sub = Some ts" "s \<in> set ts" "n \<in> set (subtrees s)"
    proof (cases rule: subtrees_cases)
      case 1
      then show ?thesis using False by simp
    next
      case (2 ts s)
      then show ?thesis using that by blast
    qed
    have each: "get_all_subclasses (LabelName n) s' =
        (if n \<in> set (subtrees s') then all_subtree_class_ids n else {})"
      if s': "s' \<in> set ts" for s'
    proof (cases "LabelName n \<in> set (labels s')")
      case True
      then obtain n' where n': "n' \<in> set (subtrees s')" "LabelName n' = LabelName n"
        by (auto simp: labels_def)
      have "n' \<in> set (subtrees (Node l sub))"
        using n'(1) s' s(1) subtrees_child by blast
      then have "n' = n"
        by (rule inj_onD[OF inj n'(2) _ "1.prems"(2)])
      then have nin: "n \<in> set (subtrees s')" using n' by simp
      have "distinct (labels s')"
        using "1.prems"(1) s' s(1) by (auto simp: distinct_concat_iff)
      then show ?thesis using "1.IH"[OF s(1) s' _ nin] nin by simp
    next
      case False
      then have "n \<notin> set (subtrees s')" by (auto simp: labels_def)
      then show ?thesis using get_all_subclasses_absent[OF False] by simp
    qed
    have "get_all_subclasses (LabelName n) (Node l sub) =
        (\<Union>s'\<in>set ts. get_all_subclasses (LabelName n) s')"
      using False s(1) by simp
    also have "\<dots> = all_subtree_class_ids n"
      using each s(2,3) by auto
    finally show ?thesis .
  qed
qed

lemma outside_label:
  assumes "distinct (labels t)" "n \<in> set (subtrees t)" "m \<in> set (subtrees t)"
    "m \<notin> set (subtrees n)"
  shows "LabelName m \<notin> set (labels n)"
proof
  assume "LabelName m \<in> set (labels n)"
  then obtain m' where m': "m' \<in> set (subtrees n)" "LabelName m' = LabelName m"
    by (auto simp: labels_def)
  have inj: "inj_on LabelName (set (subtrees t))"
    using assms(1) by (simp only: labels_def distinct_map)
  have "m' \<in> set (subtrees t)" using subtrees_trans[OF assms(2) m'(1)] .
  then have "m' = m" by (rule inj_onD[OF inj m'(2) _ assms(3)])
  then show False using m'(1) assms(4) by simp
qed

lemma is_leaf_labels: "is_leaf n \<Longrightarrow> labels n = [LabelName n]"
  by (cases n) (auto simp: is_leaf_def)

text \<open>
  For any tree, with or without repeated ids, the search returns the ids of the subtrees
  of all the nodes that carry the class id.
\<close>

lemma labels_subtree: "n \<in> set (subtrees t) \<Longrightarrow> set (labels n) \<subseteq> set (labels t)"
  using subtrees_trans by (fastforce simp: labels_def)

lemma get_all_subclasses_union:
  "get_all_subclasses class_id t =
     (\<Union>n\<in>{n \<in> set (subtrees t). LabelName n = class_id}. set (labels n))"
proof (induction class_id t rule: get_all_subclasses.induct)
  case (1 class_id l sub)
  show ?case
  proof (cases "l = class_id")
    case True
    have "Node l sub \<in> {n \<in> set (subtrees (Node l sub)). LabelName n = class_id}"
      using True by simp
    then have "set (labels (Node l sub))
        \<subseteq> (\<Union>n\<in>{n \<in> set (subtrees (Node l sub)). LabelName n = class_id}. set (labels n))"
      by blast
    moreover have "(\<Union>n\<in>{n \<in> set (subtrees (Node l sub)). LabelName n = class_id}. set (labels n))
        \<subseteq> set (labels (Node l sub))"
      using labels_subtree by blast
    ultimately show ?thesis
      using True by (simp add: all_subtree_class_ids_labels del: subtrees.simps)
  next
    case False
    show ?thesis
    proof (cases sub)
      case None
      then show ?thesis using False by simp
    next
      case (Some ts)
      have "get_all_subclasses class_id (Node l sub)
          = (\<Union>s\<in>set ts. get_all_subclasses class_id s)"
        using False Some by simp
      also have "\<dots> = (\<Union>s\<in>set ts. \<Union>n\<in>{n \<in> set (subtrees s). LabelName n = class_id}. set (labels n))"
        using 1[OF False Some] by simp
      also have "\<dots> = (\<Union>n\<in>{n \<in> set (subtrees (Node l sub)). LabelName n = class_id}. set (labels n))"
        using False Some by auto
      finally show ?thesis .
    qed
  qed
qed

lemma example_tree_distinct: "distinct (labels example_tree)"
  by (simp add: example_tree_def)

lemma example_tree_bird:
  "Node ''/m/bird'' (Some [Node ''/m/swan'' None, Node ''/m/duck'' (Some [])])
     \<in> set (subtrees example_tree)"
  by (simp add: example_tree_def)

lemma example_tree_swan: "Node ''/m/swan'' None \<in> set (subtrees example_tree)"
  by (simp add: example_tree_def)

lemma example_tree_cat:
  "Node ''/m/0jbk'' (Some [Node ''/m/kitten'' None]) \<in> set (subtrees example_tree)"
  by (simp add: example_tree_def)

text \<open>
  C6. In a hierarchy whose label ids are pairwise different (the invariant of the label
  tree), let \<open>n\<close> be the node whose id is the class id. The expansion returns exactly the
  ids of the nodes of the subtree of \<open>n\<close>, \<open>n\<close> included; when \<open>n\<close> is a leaf that is the
  singleton of its own id; and the id of a node outside the subtree of \<open>n\<close> (a sibling, a
  cousin, an ancestor) is never in the result.
\<close>

theorem get_all_subclasses_subtree:
  assumes "distinct (labels t)" and "n \<in> set (subtrees t)" and "LabelName n = class_id"
  shows "get_all_subclasses class_id t = set (labels n)
    \<and> (is_leaf n \<longrightarrow> get_all_subclasses class_id t = {class_id})
    \<and> (\<forall>m\<in>set (subtrees t). m \<notin> set (subtrees n)
          \<longrightarrow> LabelName m \<notin> get_all_subclasses class_id t)"
proof -
  have eq: "get_all_subclasses class_id t = set (labels n)"
    using get_all_subclasses_found[OF assms(1,2)] assms(3)
    by (simp add: all_subtree_class_ids_labels)
  moreover have "is_leaf n \<longrightarrow> set (labels n) = {class_id}"
    using assms(3) by (auto simp: is_leaf_labels)
  moreover have "\<forall>m\<in>set (subtrees t). m \<notin> set (subtrees n) \<longrightarrow> LabelName m \<notin> set (labels n)"
    using outside_label[OF assms(1,2)] by blast
  ultimately show ?thesis by simp
qed

theorem get_all_subclasses_subtree_witness:
  "get_all_subclasses ''/m/bird'' example_tree = {''/m/bird'', ''/m/swan'', ''/m/duck''}
   \<and> ''/m/0jbk'' \<notin> get_all_subclasses ''/m/bird'' example_tree
   \<and> is_leaf (Node ''/m/swan'' None)
   \<and> get_all_subclasses ''/m/swan'' example_tree = {''/m/swan''}"
proof -
  note bird = get_all_subclasses_subtree[OF example_tree_distinct example_tree_bird,
      of "''/m/bird''"]
  note swan = get_all_subclasses_subtree[OF example_tree_distinct example_tree_swan,
      of "''/m/swan''"]
  have 1: "get_all_subclasses ''/m/bird'' example_tree = {''/m/bird'', ''/m/swan'', ''/m/duck''}"
    using bird by simp
  have "Node ''/m/0jbk'' (Some [Node ''/m/kitten'' None])
      \<notin> set (subtrees (Node ''/m/bird'' (Some [Node ''/m/swan'' None, Node ''/m/duck'' (Some [])])))"
    by simp
  then have 2: "''/m/0jbk'' \<notin> get_all_subclasses ''/m/bird'' example_tree"
    using bird example_tree_cat by fastforce
  have 3: "is_leaf (Node ''/m/swan'' None)" by (simp add: is_leaf_def)
  have 4: "get_all_subclasses ''/m/swan'' example_tree = {''/m/swan''}"
    using swan 3 by simp
  show ?thesis using 1 2 3 4 by blast
qed

text \<open>
  C7. When the class id is the id of no node of the hierarchy, the expansion returns the
  empty set. The function has no failing branch: it returns a set for every tree.
\<close>

theorem get_all_subclasses_not_found:
  "class_id \<notin> set (labels t) \<Longrightarrow> get_all_subclasses class_id t = {}"
  by (rule get_all_subclasses_absent)

theorem get_all_subclasses_not_found_witness:
  "''/m/dog'' \<notin> set (labels example_tree) \<and> get_all_subclasses ''/m/dog'' example_tree = {}"
  using get_all_subclasses_not_found[of "''/m/dog''" example_tree]
  by (simp add: example_tree_def)

section \<open>The collector\<close>

subsection \<open>The loop, class by class\<close>

lemma unpack_row_wf:
  "8 \<le> length row \<Longrightarrow>
   unpack_row row = Inr \<lparr>img_id = row ! 0, cls_id = row ! 2, conf = row ! 3, xmin = row ! 4,
     xmax = row ! 5, ymin = row ! 6, ymax = row ! 7\<rparr>"
  by (auto simp: Suc_le_length_iff eval_nat_numeral)

lemma unpack_row_short: "length row < 8 \<Longrightarrow> unpack_row row = Inl ValueError_unpack"
  by (induction row rule: unpack_row.induct) simp_all

lemma class_bbs_collect_name:
  "class_bbs (collect_name cis needed r x st) name =
     (if name = x \<and> cls_id r \<in> cis x
      then append_box (class_bbs st x) (img_id r) [x, xmin r, xmax r, ymin r, ymax r]
      else class_bbs st name)"
  by (simp add: collect_name_def Let_def)

lemma unfilled_collect_name:
  "unfilled_class_names (collect_name cis needed r x st) =
     (if cls_id r \<in> cis x \<and> needed \<le> int (length
           (append_box (class_bbs st x) (img_id r) [x, xmin r, xmax r, ymin r, ymax r]))
      then removeAll x (unfilled_class_names st) else unfilled_class_names st)"
  by (simp add: collect_name_def Let_def)

lemma class_bbs_fold_collect_name:
  "distinct ns \<Longrightarrow>
   class_bbs (fold (collect_name cis needed r) ns st) name =
     (if name \<in> set ns \<and> cls_id r \<in> cis name
      then append_box (class_bbs st name) (img_id r) [name, xmin r, xmax r, ymin r, ymax r]
      else class_bbs st name)"
proof (induction ns arbitrary: st)
  case Nil
  then show ?case by simp
next
  case (Cons x xs)
  then show ?case by (auto simp: class_bbs_collect_name)
qed

lemma unfilled_fold_collect_name:
  "distinct ns \<Longrightarrow>
   unfilled_class_names (fold (collect_name cis needed r) ns st) =
     filter (\<lambda>name. \<not> (name \<in> set ns \<and> cls_id r \<in> cis name \<and> needed \<le> int (length
        (append_box (class_bbs st name) (img_id r) [name, xmin r, xmax r, ymin r, ymax r]))))
       (unfilled_class_names st)"
proof (induction ns arbitrary: st)
  case Nil
  then show ?case by simp
next
  case (Cons x xs)
  have d: "distinct xs" "x \<notin> set xs" using Cons.prems by auto
  let ?st1 = "collect_name cis needed r x st"
  let ?B = "\<lambda>s name. append_box (class_bbs s name) (img_id r) [name, xmin r, xmax r, ymin r, ymax r]"
  let ?c = "cls_id r \<in> cis x \<and> needed \<le> int (length (?B st x))"
  have same: "?B ?st1 name = ?B st name" if "name \<in> set xs" for name
    using that d(2) by (auto simp: class_bbs_collect_name)
  have "unfilled_class_names (fold (collect_name cis needed r) (x # xs) st) =
      filter (\<lambda>name. \<not> (name \<in> set xs \<and> cls_id r \<in> cis name \<and> needed \<le> int (length (?B ?st1 name))))
        (unfilled_class_names ?st1)"
    using Cons.IH[OF d(1), of ?st1] by simp
  also have "\<dots> =
      filter (\<lambda>name. \<not> (name \<in> set xs \<and> cls_id r \<in> cis name \<and> needed \<le> int (length (?B st name))))
        (unfilled_class_names ?st1)"
    using same by (intro filter_cong) auto
  also have "\<dots> =
      filter (\<lambda>name. \<not> (name \<in> set (x # xs) \<and> cls_id r \<in> cis name \<and> needed \<le> int (length (?B st name))))
        (unfilled_class_names st)"
  proof (cases ?c)
    case True
    then have "unfilled_class_names ?st1 = filter (\<lambda>n. n \<noteq> x) (unfilled_class_names st)"
      by (simp add: unfilled_collect_name removeAll_filter_not_eq) (metis)
    then show ?thesis using True by (auto intro!: filter_cong)
  next
    case False
    then have "unfilled_class_names ?st1 = unfilled_class_names st"
      by (auto simp: unfilled_collect_name)
    then show ?thesis using False d(2) by (auto intro!: filter_cong)
  qed
  finally show ?case .
qed

text \<open>
  The inner loop visits a Python set. Its result does not depend on the order of the
  visit: two duplicate-free lists of the same names give the same state.
\<close>

lemma fold_collect_name_order:
  assumes "distinct ns" and "distinct ns'" and "set ns = set ns'"
  shows "fold (collect_name cis needed r) ns st = fold (collect_name cis needed r) ns' st"
proof -
  have "class_bbs (fold (collect_name cis needed r) ns st)
      = class_bbs (fold (collect_name cis needed r) ns' st)"
    by (rule ext) (simp add: class_bbs_fold_collect_name assms)
  moreover have "unfilled_class_names (fold (collect_name cis needed r) ns st)
      = unfilled_class_names (fold (collect_name cis needed r) ns' st)"
    by (simp add: unfilled_fold_collect_name assms)
  ultimately show ?thesis by simp
qed

lemma collect_row_wf:
  assumes "8 \<le> length row" and "distinct (unfilled_class_names st)"
  shows "\<exists>st'. collect_row cis needed st row = Inr st'
    \<and> (\<forall>name. class_bbs st' name =
          (if name \<in> set (unfilled_class_names st) \<and> row_matches cis name row
           then append_box (class_bbs st name) (row ! 0) (row_box name row)
           else class_bbs st name))
    \<and> unfilled_class_names st' =
        filter (\<lambda>name. \<not> (row_matches cis name row \<and> needed \<le> int (length
            (append_box (class_bbs st name) (row ! 0) (row_box name row)))))
          (unfilled_class_names st)"
proof (cases "row ! 0 \<in> SKIP_IMAGES")
  case True
  then show ?thesis
    using assms(1) by (simp add: collect_row_def unpack_row_wf row_matches_def)
next
  case False
  then show ?thesis
    using assms(1)
    by (simp add: collect_row_def unpack_row_wf row_matches_def row_box_def
        class_bbs_fold_collect_name[OF assms(2)] unfilled_fold_collect_name[OF assms(2)])
      (intro filter_cong, auto)
qed

lemma stream_rows_append:
  "stream_rows cis needed st (xs @ ys) =
     (case stream_rows cis needed st xs of
        Inl e \<Rightarrow> Inl e | Inr st' \<Rightarrow> stream_rows cis needed st' ys)"
  by (induction xs arbitrary: st) (auto split: sum.splits)

lemma stream_rows_class_run:
  assumes "\<forall>row\<in>set rows. 8 \<le> length row" and "distinct (unfilled_class_names st)"
  shows "\<exists>st'. stream_rows cis needed st rows = Inr st'
    \<and> distinct (unfilled_class_names st')
    \<and> (\<forall>name. (class_bbs st' name, name \<in> set (unfilled_class_names st')) =
          class_run cis needed name (class_bbs st name, name \<in> set (unfilled_class_names st)) rows)"
  using assms
proof (induction rows arbitrary: st)
  case Nil
  then show ?case by simp
next
  case (Cons row rows)
  have wf: "8 \<le> length row" "\<forall>row\<in>set rows. 8 \<le> length row" using Cons.prems(1) by auto
  from collect_row_wf[OF wf(1) Cons.prems(2), of cis needed] obtain st1 where st1:
    "collect_row cis needed st row = Inr st1"
    "\<And>name. class_bbs st1 name =
          (if name \<in> set (unfilled_class_names st) \<and> row_matches cis name row
           then append_box (class_bbs st name) (row ! 0) (row_box name row)
           else class_bbs st name)"
    "unfilled_class_names st1 =
        filter (\<lambda>name. \<not> (row_matches cis name row \<and> needed \<le> int (length
            (append_box (class_bbs st name) (row ! 0) (row_box name row)))))
          (unfilled_class_names st)"
    by blast
  have d1: "distinct (unfilled_class_names st1)"
    using Cons.prems(2) st1(3) by simp
  from Cons.IH[OF wf(2) d1] obtain st' where st':
    "stream_rows cis needed st1 rows = Inr st'"
    "distinct (unfilled_class_names st')"
    "\<And>name. (class_bbs st' name, name \<in> set (unfilled_class_names st')) =
          class_run cis needed name (class_bbs st1 name, name \<in> set (unfilled_class_names st1)) rows"
    by blast
  have "(class_bbs st' name, name \<in> set (unfilled_class_names st')) =
      class_run cis needed name (class_bbs st name, name \<in> set (unfilled_class_names st)) (row # rows)"
    for name
    unfolding st'(3)[of name] st1(2)[of name] st1(3)
    by (auto simp: Let_def)
  then show ?case using st1(1) st'(1,2) by simp
qed

lemma class_run_frozen [simp]: "class_run cis needed name (g, False) rows = (g, False)"
  by (induction rows) simp_all

lemma class_run_append:
  "class_run cis needed name gu (xs @ ys) = class_run cis needed name (class_run cis needed name gu xs) ys"
  by (induction xs arbitrary: gu) (simp_all add: Let_def)

lemma keys_append_box:
  "map fst (append_box g k b) = (if k \<in> set (map fst g) then map fst g else map fst g @ [k])"
  by (simp add: append_box_def update_keys)

lemma length_append_box:
  "length (append_box g k b) = (if k \<in> set (map fst g) then length g else Suc (length g))"
  using arg_cong[OF keys_append_box[of g k b], of length] by (simp split: if_splits)

lemma distinct_append_box:
  "distinct (map fst g) \<Longrightarrow> distinct (map fst (append_box g k b))"
  by (simp add: append_box_def distinct_update)

lemma boxes_of_append_box:
  "boxes_of (append_box g k b) k' = (if k' = k then boxes_of g k @ [b] else boxes_of g k')"
  by (simp add: append_box_def boxes_of_def update_conv')

lemma class_run_inv:
  assumes "class_run cis needed name (g, u) rows = (g', u')"
    and "u \<longleftrightarrow> int (length g) < needed" and "int (length g) \<le> needed"
    and "distinct (map fst g)"
  shows "(u' \<longleftrightarrow> int (length g') < needed) \<and> int (length g') \<le> needed \<and> distinct (map fst g')"
  using assms
proof (induction rows arbitrary: g u)
  case Nil
  then show ?case by auto
next
  case (Cons row rows)
  show ?case
  proof (cases "u \<and> row_matches cis name row")
    case True
    let ?g1 = "append_box g (row ! 0) (row_box name row)"
    have run: "class_run cis needed name (?g1, \<not> needed \<le> int (length ?g1)) rows = (g', u')"
      using Cons.prems(1) True by (simp add: Let_def)
    have le: "int (length ?g1) \<le> needed"
      using True Cons.prems(2) by (simp add: length_append_box)
    have iff: "(\<not> needed \<le> int (length ?g1)) \<longleftrightarrow> int (length ?g1) < needed"
      by auto
    show ?thesis
      by (rule Cons.IH[OF run iff le distinct_append_box[OF Cons.prems(4)]])
  next
    case False
    then have "class_run cis needed name (g, u) rows = (g', u')"
      using Cons.prems(1) by auto
    then show ?thesis using Cons.IH Cons.prems(2,3,4) by blast
  qed
qed

lemma add_new_prefix: "\<exists>zs. add_new ks xs = ks @ zs"
proof (induction xs arbitrary: ks)
  case Nil
  then show ?case by simp
next
  case (Cons x xs)
  show ?case
  proof (cases "x \<in> set ks")
    case True
    then show ?thesis using Cons.IH[of ks] by simp
  next
    case False
    then show ?thesis using Cons.IH[of "ks @ [x]"] by auto
  qed
qed

lemma take_add_new_full: "n \<le> length ks \<Longrightarrow> take n (add_new ks xs) = take n ks"
  using add_new_prefix[of ks xs] by auto

lemma set_add_new: "set (add_new ks xs) = set ks \<union> set xs"
  by (induction xs arbitrary: ks) auto

lemma distinct_add_new: "distinct ks \<Longrightarrow> distinct (add_new ks xs)"
  by (induction xs arbitrary: ks) auto

lemma class_run_keys:
  assumes "u \<longleftrightarrow> int (length g) < needed" and "int (length g) \<le> needed"
  shows "map fst (fst (class_run cis needed name (g, u) rows)) =
     take (nat needed) (add_new (map fst g) (matching_images cis name rows))"
  using assms
proof (induction rows arbitrary: g u)
  case Nil
  then show ?case by (simp add: matching_images_def)
next
  case (Cons row rows)
  show ?case
  proof (cases "row_matches cis name row")
    case False
    then show ?thesis using Cons.IH[OF Cons.prems] by (simp add: matching_images_def)
  next
    case m: True
    show ?thesis
    proof (cases u)
      case True
      let ?g1 = "append_box g (row ! 0) (row_box name row)"
      have le: "int (length ?g1) \<le> needed"
        using True Cons.prems(1) by (simp add: length_append_box)
      have "map fst (fst (class_run cis needed name (g, u) (row # rows))) =
          map fst (fst (class_run cis needed name (?g1, \<not> needed \<le> int (length ?g1)) rows))"
        using True m by (simp add: Let_def)
      also have "\<dots> = take (nat needed) (add_new (map fst ?g1) (matching_images cis name rows))"
        using le by (intro Cons.IH) auto
      also have "\<dots> = take (nat needed) (add_new (map fst g) (matching_images cis name (row # rows)))"
        using m by (simp add: matching_images_def keys_append_box)
      finally show ?thesis .
    next
      case False
      then have full: "nat needed \<le> length (map fst g)"
        using Cons.prems by auto
      show ?thesis
        using False Cons.prems
        by (simp add: take_add_new_full[OF full])
    qed
  qed
qed

subsection \<open>Trimming and merging\<close>

lemma set_dict_keys [simp]: "set (dict_keys xs) = set xs"
  by (simp add: dict_keys_def)

lemma distinct_dict_keys [simp]: "distinct (dict_keys xs)"
  by (simp add: dict_keys_def)

lemma py_slice_from_last:
  "1 \<le> n \<Longrightarrow> py_slice_from (- n) xs = drop (length xs - nat n) xs"
  by (auto simp: py_slice_from_def Let_def max_def nat_diff_distrib' intro: arg_cong2[where f = drop])

lemma py_slice_from_short:
  "int (length xs) \<le> n \<Longrightarrow> py_slice_from (- n) xs = xs"
  by (auto simp: py_slice_from_def Let_def max_def min_def)

lemma py_slice_from_suffix: "suffix (py_slice_from s xs) xs"
  by (simp add: py_slice_from_def Let_def suffix_drop)

lemma distinct_py_slice_from:
  "distinct (map fst xs) \<Longrightarrow> distinct (map fst (py_slice_from s xs))"
  by (simp add: py_slice_from_def Let_def drop_map[symmetric] distinct_drop)

lemma boxes_of_Nil [simp]: "boxes_of [] i = []"
  by (simp add: boxes_of_def)

lemma boxes_of_Cons:
  "boxes_of ((k, bs) # g) i = (if i = k then bs else boxes_of g i)"
  by (simp add: boxes_of_def)

lemma boxes_of_absent: "i \<notin> fst ` set g \<Longrightarrow> boxes_of g i = []"
  by (simp add: boxes_of_def map_of_eq_None_iff[THEN iffD2])

lemma boxes_of_add_boxes:
  "boxes_of (add_boxes (k, bs) d0) i = (if i = k then boxes_of d0 k @ bs else boxes_of d0 i)"
  by (simp add: add_boxes_def boxes_of_def update_conv')

lemma keys_add_boxes: "fst ` set (add_boxes g d0) = insert (fst g) (fst ` set d0)"
proof -
  have "dom (map_of (add_boxes g d0)) = insert (fst g) (dom (map_of d0))"
    by (simp add: add_boxes_def update_conv')
  then show ?thesis by (simp add: dom_map_of_conv_image_fst)
qed

lemma distinct_add_boxes: "distinct (map fst d0) \<Longrightarrow> distinct (map fst (add_boxes g d0))"
  by (simp add: add_boxes_def distinct_update)

lemma fold_add_boxes:
  "distinct (map fst batch) \<Longrightarrow>
   boxes_of (fold add_boxes batch d0) i = boxes_of d0 i @ boxes_of batch i"
proof (induction batch arbitrary: d0)
  case Nil
  then show ?case by simp
next
  case (Cons g batch)
  obtain k bs where g: "g = (k, bs)" by (cases g)
  have d: "distinct (map fst batch)" "k \<notin> fst ` set batch" using Cons.prems g by auto
  show ?case
    using Cons.IH[OF d(1)] d(2) g
    by (simp add: boxes_of_add_boxes boxes_of_Cons boxes_of_absent)
qed

lemma keys_fold_add_boxes:
  "fst ` set (fold add_boxes batch d0) = fst ` set d0 \<union> fst ` set batch"
  by (induction batch arbitrary: d0) (auto simp: keys_add_boxes)

lemma distinct_fold_add_boxes:
  "distinct (map fst d0) \<Longrightarrow> distinct (map fst (fold add_boxes batch d0))"
  by (induction batch arbitrary: d0) (simp_all add: distinct_add_boxes)

lemma fst_fold_trim_class:
  "distinct names \<Longrightarrow>
   fst (fold (trim_class N) names acc) c =
     (if c \<in> set names then py_slice_from (- N) (fst acc c) else fst acc c)"
proof (induction names arbitrary: acc)
  case Nil
  then show ?case by simp
next
  case (Cons x xs)
  then show ?case by (auto simp: trim_class_def Let_def)
qed

lemma snd_fold_trim_class:
  assumes "distinct names" and "distinct (map fst (snd acc))"
    and "\<forall>c\<in>set names. distinct (map fst (fst acc c))"
  shows "distinct (map fst (snd (fold (trim_class N) names acc)))
    \<and> fst ` set (snd (fold (trim_class N) names acc)) =
        fst ` set (snd acc) \<union> (\<Union>c\<in>set names. fst ` set (py_slice_from (- N) (fst acc c)))
    \<and> (\<forall>i. boxes_of (snd (fold (trim_class N) names acc)) i =
          boxes_of (snd acc) i @ concat (map (\<lambda>c. boxes_of (py_slice_from (- N) (fst acc c)) i) names))"
  using assms
proof (induction names arbitrary: acc)
  case Nil
  then show ?case by simp
next
  case (Cons x xs)
  let ?batch = "py_slice_from (- N) (fst acc x)"
  let ?acc1 = "trim_class N x acc"
  have acc1: "fst ?acc1 = (fst acc)(x := ?batch)" "snd ?acc1 = fold add_boxes ?batch (snd acc)"
    by (simp_all add: trim_class_def Let_def)
  have d: "distinct xs" "x \<notin> set xs" using Cons.prems(1) by auto
  have db: "distinct (map fst ?batch)"
    using Cons.prems(3) by (simp add: distinct_py_slice_from)
  have same: "fst ?acc1 c = fst acc c" if "c \<in> set xs" for c
    using that d(2) acc1(1) by auto
  have 1: "distinct (map fst (snd ?acc1))"
    unfolding acc1(2) using Cons.prems(2) by (rule distinct_fold_add_boxes)
  have 2: "\<forall>c\<in>set xs. distinct (map fst (fst ?acc1 c))"
    using Cons.prems(3) same by simp
  note IH = Cons.IH[OF d(1) 1 2]
  have k: "fst ` set (snd ?acc1) = fst ` set (snd acc) \<union> fst ` set ?batch"
    unfolding acc1(2) by (rule keys_fold_add_boxes)
  have b: "boxes_of (snd ?acc1) i = boxes_of (snd acc) i @ boxes_of ?batch i" for i
    unfolding acc1(2) by (rule fold_add_boxes[OF db])
  have m: "map (\<lambda>c. boxes_of (py_slice_from (- N) (fst ?acc1 c)) i) xs
      = map (\<lambda>c. boxes_of (py_slice_from (- N) (fst acc c)) i) xs" for i
    using same by simp
  have u: "(\<Union>c\<in>set xs. fst ` set (py_slice_from (- N) (fst ?acc1 c)))
      = (\<Union>c\<in>set xs. fst ` set (py_slice_from (- N) (fst acc c)))"
    using same by simp
  show ?case
    using IH by (simp add: k b m u Un_assoc)
qed

subsection \<open>What the loop leaves when the stream ends\<close>

lemma class_run_distinct:
  "distinct (map fst (fst gu)) \<Longrightarrow> distinct (map fst (fst (class_run cis needed name gu rows)))"
  by (induction rows arbitrary: gu) (simp_all add: Let_def distinct_append_box)

lemma stream_rows_init:
  assumes "\<forall>row\<in>set rows. 8 \<le> length row"
  shows "\<exists>st. stream_rows cis needed (init_collector CLASS_NAMES) rows = Inr st
    \<and> distinct (unfilled_class_names st)
    \<and> set (unfilled_class_names st) \<subseteq> set CLASS_NAMES
    \<and> (\<forall>c. distinct (map fst (class_bbs st c)))
    \<and> (\<forall>c. (class_bbs st c, c \<in> set (unfilled_class_names st)) =
          class_run cis needed c ([], c \<in> set CLASS_NAMES) rows)"
proof -
  have d: "distinct (unfilled_class_names (init_collector CLASS_NAMES))"
    by (simp add: init_collector_def)
  from stream_rows_class_run[OF assms d, of cis needed] obtain st where st:
    "stream_rows cis needed (init_collector CLASS_NAMES) rows = Inr st"
    "distinct (unfilled_class_names st)"
    "\<And>c. (class_bbs st c, c \<in> set (unfilled_class_names st)) =
          class_run cis needed c ([], c \<in> set CLASS_NAMES) rows"
    by (auto simp: init_collector_def)
  have sub: "set (unfilled_class_names st) \<subseteq> set CLASS_NAMES"
  proof
    fix c assume c: "c \<in> set (unfilled_class_names st)"
    show "c \<in> set CLASS_NAMES"
    proof (rule ccontr)
      assume "c \<notin> set CLASS_NAMES"
      then have "(class_bbs st c, c \<in> set (unfilled_class_names st)) = ([], False)"
        using st(3)[of c] by simp
      then show False using c by simp
    qed
  qed
  have dk: "distinct (map fst (class_bbs st c))" for c
    using class_run_distinct[of "([], c \<in> set CLASS_NAMES)" cis needed c rows] st(3)[of c]
    by (metis distinct.simps(1) fst_conv list.simps(8))
  show ?thesis using st(1,2) sub dk st(3) by blast
qed

lemma stream_rows_init_quota:
  assumes "\<forall>row\<in>set rows. 8 \<le> length row" and "1 \<le> needed"
  shows "\<exists>st. stream_rows cis needed (init_collector CLASS_NAMES) rows = Inr st
    \<and> distinct (unfilled_class_names st)
    \<and> set (unfilled_class_names st) =
        {c \<in> set CLASS_NAMES. int (length (class_bbs st c)) < needed}
    \<and> (\<forall>c\<in>set CLASS_NAMES. int (length (class_bbs st c)) \<le> needed
          \<and> map fst (class_bbs st c) =
              take (nat needed) (first_occurrences (matching_images cis c rows)))"
proof -
  from stream_rows_init[OF assms(1), of cis needed CLASS_NAMES] obtain st where st:
    "stream_rows cis needed (init_collector CLASS_NAMES) rows = Inr st"
    "distinct (unfilled_class_names st)"
    "set (unfilled_class_names st) \<subseteq> set CLASS_NAMES"
    "\<And>c. (class_bbs st c, c \<in> set (unfilled_class_names st)) =
          class_run cis needed c ([], c \<in> set CLASS_NAMES) rows"
    by blast
  have each: "(c \<in> set (unfilled_class_names st) \<longleftrightarrow> int (length (class_bbs st c)) < needed)
      \<and> int (length (class_bbs st c)) \<le> needed
      \<and> map fst (class_bbs st c) = take (nat needed) (first_occurrences (matching_images cis c rows))"
    if c: "c \<in> set CLASS_NAMES" for c
  proof -
    have run: "class_run cis needed c ([], True) rows
        = (class_bbs st c, c \<in> set (unfilled_class_names st))"
      using st(4)[of c] c by simp
    have "(c \<in> set (unfilled_class_names st) \<longleftrightarrow> int (length (class_bbs st c)) < needed)
        \<and> int (length (class_bbs st c)) \<le> needed"
      using class_run_inv[OF run] assms(2) by simp
    moreover have "map fst (class_bbs st c)
        = take (nat needed) (first_occurrences (matching_images cis c rows))"
      using class_run_keys[of True "[]" needed cis c rows] assms(2) run
      by (simp add: first_occurrences_def)
    ultimately show ?thesis by blast
  qed
  have "set (unfilled_class_names st) = {c \<in> set CLASS_NAMES. int (length (class_bbs st c)) < needed}"
    using st(3) each by blast
  then show ?thesis using st(1,2) each by blast
qed

lemma class_bbs_out_post_process:
  "c \<in> set CLASS_NAMES \<Longrightarrow>
   class_bbs_out (post_process N OFFSET CLASS_NAMES st) c = py_slice_from (- N) (class_bbs st c)"
  by (simp add: post_process_def Let_def fst_fold_trim_class)

lemma length_first_occurrences: "length (first_occurrences xs) = card (set xs)"
proof -
  have "distinct (first_occurrences xs)" "set (first_occurrences xs) = set xs"
    by (simp_all add: first_occurrences_def distinct_add_new set_add_new)
  then show ?thesis by (metis distinct_card)
qed

text \<open>
  C1. For annotation rows holding their eight columns, a quota \<open>N \<ge> 1\<close> and an offset
  \<open>\<ge> 0\<close>, the loop returns, and for every requested class the images it has
  accumulated are the first \<open>N * (offset + 1)\<close> distinct image ids, in stream order, that
  have a row counting for the class (image not skipped, label id in the id set of the
  class); the class is still unfilled exactly when it holds fewer than that many images.
  With offset 0, a class for which the stream holds at least \<open>N\<close> such images has exactly
  \<open>N\<close> image groups in the output.
\<close>

theorem collect_quota:
  assumes "\<forall>row\<in>set rows. 8 \<le> length row" and "1 \<le> N" and "0 \<le> OFFSET"
  shows "\<exists>st out. stream_rows cis (N * (OFFSET + 1)) (init_collector CLASS_NAMES) rows = Inr st
      \<and> collect CLASS_NAMES cis N OFFSET rows = Inr out
      \<and> (\<forall>c\<in>set CLASS_NAMES.
           map fst (class_bbs st c) =
             take (nat (N * (OFFSET + 1))) (first_occurrences (matching_images cis c rows))
         \<and> (c \<in> set (unfilled_class_names st) \<longleftrightarrow> int (length (class_bbs st c)) < N * (OFFSET + 1))
         \<and> (OFFSET = 0 \<and> N \<le> int (card (set (matching_images cis c rows)))
              \<longrightarrow> length (class_bbs_out out c) = nat N))"
proof -
  have "1 * 1 \<le> N * (OFFSET + 1)"
    using assms(2,3) by (intro mult_mono) auto
  then have needed: "1 \<le> N * (OFFSET + 1)" by simp
  from stream_rows_init_quota[OF assms(1) needed, of cis CLASS_NAMES] obtain st where st:
    "stream_rows cis (N * (OFFSET + 1)) (init_collector CLASS_NAMES) rows = Inr st"
    "set (unfilled_class_names st) =
        {c \<in> set CLASS_NAMES. int (length (class_bbs st c)) < N * (OFFSET + 1)}"
    "\<And>c. c \<in> set CLASS_NAMES \<Longrightarrow> map fst (class_bbs st c) =
        take (nat (N * (OFFSET + 1))) (first_occurrences (matching_images cis c rows))"
    by blast
  let ?out = "post_process N OFFSET CLASS_NAMES st"
  have out: "collect CLASS_NAMES cis N OFFSET rows = Inr ?out"
    using st(1) by (simp add: collect_def)
  have exact: "length (class_bbs_out ?out c) = nat N"
    if c: "c \<in> set CLASS_NAMES" and o: "OFFSET = 0"
      and many: "N \<le> int (card (set (matching_images cis c rows)))" for c
  proof -
    have "length (map fst (class_bbs st c)) = nat N"
      unfolding st(3)[OF c] using o many by (simp add: length_first_occurrences)
    then have len: "length (class_bbs st c) = nat N" by simp
    then have "py_slice_from (- N) (class_bbs st c) = class_bbs st c"
      using assms(2) by (intro py_slice_from_short) simp
    then show ?thesis using len by (simp add: class_bbs_out_post_process[OF c])
  qed
  show ?thesis
    using st(1) out st(2) st(3) exact by (intro exI[of _ st] exI[of _ ?out]) auto
qed

lemma cat_rows_wf: "\<forall>row\<in>set cat_rows. 8 \<le> length row"
  by (simp add: cat_rows_def)

lemma example_rows_wf: "\<forall>row\<in>set example_rows. 8 \<le> length row"
  by (simp add: example_rows_def)

lemma cat_rows_matching:
  "matching_images example_class_id_sets ''Cat'' cat_rows = [''img1'', ''img1'', ''img2'']"
  by code_simp

theorem collect_quota_witness:
  "list_all (\<lambda>row. 8 \<le> length row) cat_rows \<and> (1::int) \<le> 2 \<and> (0::int) \<le> 0
   \<and> 2 \<le> int (card (set (matching_images example_class_id_sets ''Cat'' cat_rows)))
   \<and> (\<exists>st out. stream_rows example_class_id_sets (2 * (0 + 1)) (init_collector [''Cat'']) cat_rows = Inr st
      \<and> collect [''Cat''] example_class_id_sets 2 0 cat_rows = Inr out
      \<and> map fst (class_bbs st ''Cat'') = [''img1'', ''img2'']
      \<and> ''Cat'' \<notin> set (unfilled_class_names st)
      \<and> length (class_bbs_out out ''Cat'') = 2)"
proof -
  have 1: "(1::int) \<le> 2" and 2: "(0::int) \<le> 0" by simp_all
  have 3: "2 \<le> int (card (set (matching_images example_class_id_sets ''Cat'' cat_rows)))"
    by (simp add: cat_rows_matching)
  have 4: "take (nat (2 * (0 + 1)))
      (first_occurrences (matching_images example_class_id_sets ''Cat'' cat_rows)) = [''img1'', ''img2'']"
    by (simp add: cat_rows_matching first_occurrences_def)
  from collect_quota[OF cat_rows_wf 1 2, of example_class_id_sets "[''Cat'']"]
  obtain st out where
    "stream_rows example_class_id_sets (2 * (0 + 1)) (init_collector [''Cat'']) cat_rows = Inr st"
    "collect [''Cat''] example_class_id_sets 2 0 cat_rows = Inr out"
    "map fst (class_bbs st ''Cat'') = take (nat (2 * (0 + 1)))
      (first_occurrences (matching_images example_class_id_sets ''Cat'' cat_rows))"
    "''Cat'' \<in> set (unfilled_class_names st) \<longleftrightarrow> int (length (class_bbs st ''Cat'')) < 2 * (0 + 1)"
    "length (class_bbs_out out ''Cat'') = nat 2"
    using 3 by auto
  moreover from this have "length (map fst (class_bbs st ''Cat'')) = 2"
    using 4 by simp
  ultimately show ?thesis
    using cat_rows_wf 3 4 by (intro conjI exI[of _ st] exI[of _ out]) (auto simp: list_all_iff)
qed

subsection \<open>After a class is filled\<close>

lemma stream_rows_filled:
  assumes "\<forall>row\<in>set rows. 8 \<le> length row" and "unfilled_class_names st = []"
  shows "stream_rows cis needed st rows = Inr st"
proof -
  have d: "distinct (unfilled_class_names st)" using assms(2) by simp
  from stream_rows_class_run[OF assms(1) d, of cis needed] obtain st' where st':
    "stream_rows cis needed st rows = Inr st'"
    "\<And>c. (class_bbs st' c, c \<in> set (unfilled_class_names st')) =
          class_run cis needed c (class_bbs st c, c \<in> set (unfilled_class_names st)) rows"
    by blast
  have each: "class_bbs st' c = class_bbs st c \<and> c \<notin> set (unfilled_class_names st')" for c
    using st'(2)[of c] assms(2) by simp
  have "c \<notin> set (unfilled_class_names st')" for c using each[of c] by simp
  then have "set (unfilled_class_names st') = {}" by (simp add: set_eq_iff del: set_empty)
  then have "unfilled_class_names st' = unfilled_class_names st"
    using assms(2) by simp
  moreover have "class_bbs st' = class_bbs st" using each by auto
  ultimately have "st' = st" by simp
  then show ?thesis using st'(1) by simp
qed

lemma accumulated_Inr:
  "stream_rows cis (N * (OFFSET + 1)) (init_collector CLASS_NAMES) rows = Inr st \<Longrightarrow>
   accumulated CLASS_NAMES cis N OFFSET rows c = class_bbs st c"
  by (simp add: accumulated_def)

lemma needed_pos: "1 \<le> N \<Longrightarrow> 0 \<le> OFFSET \<Longrightarrow> (1::int) \<le> N * (OFFSET + 1)"
proof -
  assume "1 \<le> N" "0 \<le> OFFSET"
  then have "1 * 1 \<le> N * (OFFSET + 1)" by (intro mult_mono) auto
  then show ?thesis by simp
qed

text \<open>
  C3 (amended). The loop does not halt when the last class is filled: it has no
  \<open>break\<close> and goes through the rest of the stream with an empty set of unfilled names,
  still unpacking every row. When, after the rows \<open>xs\<close>, every requested class has
  reached its capacity of \<open>N * (offset + 1)\<close> images, and the rows \<open>ys\<close> that follow hold
  their eight columns, those rows contribute nothing: the output on \<open>xs @ ys\<close> is the
  output on \<open>xs\<close>.
\<close>

theorem collect_all_filled_suffix:
  assumes "\<forall>row\<in>set xs. 8 \<le> length row" and "\<forall>row\<in>set ys. 8 \<le> length row"
    and "1 \<le> N" and "0 \<le> OFFSET"
    and "\<forall>c\<in>set CLASS_NAMES.
           N * (OFFSET + 1) \<le> int (length (accumulated CLASS_NAMES cis N OFFSET xs c))"
  shows "collect CLASS_NAMES cis N OFFSET (xs @ ys) = collect CLASS_NAMES cis N OFFSET xs
    \<and> (\<exists>out. collect CLASS_NAMES cis N OFFSET xs = Inr out)"
proof -
  from stream_rows_init_quota[OF assms(1) needed_pos[OF assms(3,4)], of cis CLASS_NAMES]
  obtain st where st:
    "stream_rows cis (N * (OFFSET + 1)) (init_collector CLASS_NAMES) xs = Inr st"
    "set (unfilled_class_names st) =
        {c \<in> set CLASS_NAMES. int (length (class_bbs st c)) < N * (OFFSET + 1)}"
    by blast
  have "set (unfilled_class_names st) = {}"
    using st(2) assms(5) accumulated_Inr[OF st(1)] by auto
  then have "unfilled_class_names st = []" by simp
  then have "stream_rows cis (N * (OFFSET + 1)) st ys = Inr st"
    using stream_rows_filled[OF assms(2)] by blast
  then have "stream_rows cis (N * (OFFSET + 1)) (init_collector CLASS_NAMES) (xs @ ys) = Inr st"
    using st(1) by (simp add: stream_rows_append)
  then show ?thesis using st(1) by (simp add: collect_def)
qed

lemma cat_rows_accumulated_2_0:
  "accumulated [''Cat''] example_class_id_sets 2 0 cat_rows ''Cat'' =
     [(''img1'', [[''Cat'', ''0.1'', ''0.2'', ''0.3'', ''0.4''], [''Cat'', ''0.5'', ''0.6'', ''0.7'', ''0.8'']]),
      (''img2'', [[''Cat'', ''0.0'', ''1.0'', ''0.0'', ''1.0'']])]"
  by code_simp

theorem collect_all_filled_suffix_witness:
  "list_all (\<lambda>row. 8 \<le> length row) cat_rows \<and> list_all (\<lambda>row. 8 \<le> length row) example_rows
   \<and> (1::int) \<le> 2 \<and> (0::int) \<le> 0
   \<and> 2 * (0 + 1) \<le> int (length (accumulated [''Cat''] example_class_id_sets 2 0 cat_rows ''Cat''))
   \<and> collect [''Cat''] example_class_id_sets 2 0 (cat_rows @ example_rows)
       = collect [''Cat''] example_class_id_sets 2 0 cat_rows
   \<and> (\<exists>out. collect [''Cat''] example_class_id_sets 2 0 cat_rows = Inr out)"
proof -
  have 1: "(1::int) \<le> 2" and 2: "(0::int) \<le> 0" by simp_all
  have 3: "\<forall>c\<in>set [''Cat''].
      2 * (0 + 1) \<le> int (length (accumulated [''Cat''] example_class_id_sets 2 0 cat_rows c))"
    by (simp add: cat_rows_accumulated_2_0)
  show ?thesis
    using collect_all_filled_suffix[OF cat_rows_wf example_rows_wf 1 2 3] cat_rows_wf
      example_rows_wf 3 by (simp add: list_all_iff)
qed

text \<open>
  C3 as stated fails: the rows after the last class is filled are not skipped unread.
  With quota 2 and offset 0 the class is filled by the rows of \<open>cat_rows\<close>; a blank line
  after them (an empty row) still raises the \<open>ValueError\<close> of the unpacking, so the run on
  the full stream gives no output where the run on the prefix gives one.
\<close>

theorem collect_reads_after_filled:
  "2 * (0 + 1) \<le> int (length (accumulated [''Cat''] example_class_id_sets 2 0 cat_rows ''Cat''))
   \<and> map_sum id bbs (collect [''Cat''] example_class_id_sets 2 0 cat_rows)
       = Inr [(''img1'', [[''Cat'', ''0.1'', ''0.2'', ''0.3'', ''0.4''],
                          [''Cat'', ''0.5'', ''0.6'', ''0.7'', ''0.8'']]),
              (''img2'', [[''Cat'', ''0.0'', ''1.0'', ''0.0'', ''1.0'']])]
   \<and> map_sum id bbs (collect [''Cat''] example_class_id_sets 2 0 (cat_rows @ [[]]))
       = Inl ValueError_unpack
   \<and> collect [''Cat''] example_class_id_sets 2 0 (cat_rows @ [[]])
       \<noteq> collect [''Cat''] example_class_id_sets 2 0 cat_rows"
proof -
  have 1: "2 * (0 + 1)
      \<le> int (length (accumulated [''Cat''] example_class_id_sets 2 0 cat_rows ''Cat''))"
    by (simp add: cat_rows_accumulated_2_0)
  have 2: "map_sum id bbs (collect [''Cat''] example_class_id_sets 2 0 cat_rows)
       = Inr [(''img1'', [[''Cat'', ''0.1'', ''0.2'', ''0.3'', ''0.4''],
                          [''Cat'', ''0.5'', ''0.6'', ''0.7'', ''0.8'']]),
              (''img2'', [[''Cat'', ''0.0'', ''1.0'', ''0.0'', ''1.0'']])]"
    by code_simp
  have 3: "map_sum id bbs (collect [''Cat''] example_class_id_sets 2 0 (cat_rows @ [[]]))
       = Inl ValueError_unpack"
    by code_simp
  have 4: "collect [''Cat''] example_class_id_sets 2 0 (cat_rows @ [[]])
       \<noteq> collect [''Cat''] example_class_id_sets 2 0 cat_rows"
  proof
    assume "collect [''Cat''] example_class_id_sets 2 0 (cat_rows @ [[]])
       = collect [''Cat''] example_class_id_sets 2 0 cat_rows"
    then have "map_sum id bbs (collect [''Cat''] example_class_id_sets 2 0 (cat_rows @ [[]]))
       = map_sum id bbs (collect [''Cat''] example_class_id_sets 2 0 cat_rows)"
      by simp
    then show False unfolding 2 3 by simp
  qed
  show ?thesis using 1 2 3 4 by blast
qed

text \<open>
  C10. When, after the rows \<open>xs\<close>, a class has reached its capacity, no later row
  changes its image groups: a later row counting for the class adds neither an image nor
  a box to an image already collected, so the boxes of such rows are missing from the
  groups of the class.
\<close>

theorem collect_filled_class_frozen:
  assumes "\<forall>row\<in>set xs. 8 \<le> length row" and "\<forall>row\<in>set ys. 8 \<le> length row"
    and "1 \<le> N" and "0 \<le> OFFSET"
    and "N * (OFFSET + 1) \<le> int (length (accumulated CLASS_NAMES cis N OFFSET xs c))"
  shows "(\<exists>st. stream_rows cis (N * (OFFSET + 1)) (init_collector CLASS_NAMES) (xs @ ys) = Inr st)
    \<and> accumulated CLASS_NAMES cis N OFFSET (xs @ ys) c = accumulated CLASS_NAMES cis N OFFSET xs c"
proof -
  let ?needed = "N * (OFFSET + 1)"
  have pos: "1 \<le> ?needed" by (rule needed_pos[OF assms(3,4)])
  from stream_rows_init_quota[OF assms(1) pos, of cis CLASS_NAMES]
  obtain st where st:
    "stream_rows cis ?needed (init_collector CLASS_NAMES) xs = Inr st"
    "distinct (unfilled_class_names st)"
    "set (unfilled_class_names st) = {c \<in> set CLASS_NAMES. int (length (class_bbs st c)) < ?needed}"
    by blast
  have nc: "c \<notin> set (unfilled_class_names st)"
    using st(3) assms(5) accumulated_Inr[OF st(1)] by auto
  from stream_rows_class_run[OF assms(2) st(2), of cis ?needed] obtain st' where st':
    "stream_rows cis ?needed st ys = Inr st'"
    "\<And>c. (class_bbs st' c, c \<in> set (unfilled_class_names st')) =
          class_run cis ?needed c (class_bbs st c, c \<in> set (unfilled_class_names st)) ys"
    by blast
  have all: "stream_rows cis ?needed (init_collector CLASS_NAMES) (xs @ ys) = Inr st'"
    using st(1) st'(1) by (simp add: stream_rows_append)
  have "class_bbs st' c = class_bbs st c"
    using st'(2)[of c] nc by simp
  then show ?thesis
    using all accumulated_Inr[OF all] accumulated_Inr[OF st(1)] by simp
qed

lemma cat_rows_split: "take 2 cat_rows @ drop 2 cat_rows = cat_rows"
  by simp

lemma cat_rows_accumulated_1_0_prefix:
  "accumulated [''Cat''] example_class_id_sets 1 0 (take 2 cat_rows) ''Cat'' =
     [(''img1'', [[''Cat'', ''0.1'', ''0.2'', ''0.3'', ''0.4'']])]"
  by code_simp

lemma cat_rows_later_match:
  "drop 2 cat_rows ! 0 ! 0 = ''img1'' \<and> row_matches example_class_id_sets ''Cat'' (drop 2 cat_rows ! 0)"
  by code_simp

theorem collect_filled_class_frozen_witness:
  "list_all (\<lambda>row. 8 \<le> length row) (take 2 cat_rows)
   \<and> list_all (\<lambda>row. 8 \<le> length row) (drop 2 cat_rows)
   \<and> (1::int) \<le> 1 \<and> (0::int) \<le> 0
   \<and> 1 * (0 + 1) \<le> int (length (accumulated [''Cat''] example_class_id_sets 1 0 (take 2 cat_rows) ''Cat''))
   \<and> drop 2 cat_rows ! 0 ! 0 = ''img1''
   \<and> row_matches example_class_id_sets ''Cat'' (drop 2 cat_rows ! 0)
   \<and> accumulated [''Cat''] example_class_id_sets 1 0 (take 2 cat_rows @ drop 2 cat_rows) ''Cat''
       = [(''img1'', [[''Cat'', ''0.1'', ''0.2'', ''0.3'', ''0.4'']])]"
proof -
  have 1: "\<forall>row\<in>set (take 2 cat_rows). 8 \<le> length row"
    using cat_rows_wf by (meson in_set_takeD)
  have 2: "\<forall>row\<in>set (drop 2 cat_rows). 8 \<le> length row"
    using cat_rows_wf by (meson in_set_dropD)
  have 3: "(1::int) \<le> 1" and 4: "(0::int) \<le> 0" by simp_all
  have 5: "1 * (0 + 1)
      \<le> int (length (accumulated [''Cat''] example_class_id_sets 1 0 (take 2 cat_rows) ''Cat''))"
    by (simp add: cat_rows_accumulated_1_0_prefix)
  show ?thesis
    using collect_filled_class_frozen[OF 1 2 3 4 5] 1 2 5 cat_rows_later_match
    by (simp add: cat_rows_accumulated_1_0_prefix list_all_iff del: append_take_drop_id)
qed


subsection \<open>Two offsets on one stream\<close>

lemma class_run_offsets:
  assumes "a \<le> b"
    and "prefix (map fst ga) (map fst gb)"
    and "\<forall>i. prefix (boxes_of ga i) (boxes_of gb i)"
    and "ua \<longrightarrow> ga = gb \<and> ub"
  shows "prefix (map fst (fst (class_run cis a name (ga, ua) rows)))
           (map fst (fst (class_run cis b name (gb, ub) rows)))
    \<and> (\<forall>i. prefix (boxes_of (fst (class_run cis a name (ga, ua) rows)) i)
              (boxes_of (fst (class_run cis b name (gb, ub) rows)) i))"
  using assms(2-)
proof (induction rows arbitrary: ga gb ua ub)
  case Nil
  then show ?case by simp
next
  case (Cons row rows)
  show ?case
  proof (cases "row_matches cis name row")
    case False
    then show ?thesis using Cons.IH[OF Cons.prems] by simp
  next
    case m: True
    let ?k = "row ! 0" and ?bx = "row_box name row"
    show ?thesis
    proof (cases ua)
      case True
      then have eq: "ga = gb" "ub" using Cons.prems(3) by auto
      let ?g1 = "append_box gb ?k ?bx"
      have imp: "(\<not> a \<le> int (length ?g1)) \<longrightarrow> ?g1 = ?g1 \<and> (\<not> b \<le> int (length ?g1))"
        using assms(1) by auto
      have "prefix (map fst ?g1) (map fst ?g1)" "\<forall>i. prefix (boxes_of ?g1 i) (boxes_of ?g1 i)"
        by simp_all
      from Cons.IH[OF this imp] show ?thesis
        using True eq m by (simp add: Let_def)
    next
      case False
      show ?thesis
      proof (cases ub)
        case True
        let ?g1 = "append_box gb ?k ?bx"
        have k: "prefix (map fst ga) (map fst ?g1)"
          using Cons.prems(1) by (auto simp: keys_append_box intro: prefix_order.trans)
        have bx: "\<forall>i. prefix (boxes_of ga i) (boxes_of ?g1 i)"
          using Cons.prems(2) by (auto simp: boxes_of_append_box intro: prefix_order.trans)
        have imp: "False \<longrightarrow> ga = ?g1 \<and> (\<not> b \<le> int (length ?g1))" by simp
        from Cons.IH[OF k bx imp] show ?thesis
          using True False m by (simp add: Let_def)
      next
        case ub: False
        from Cons.IH[OF Cons.prems] show ?thesis
          using ub False by simp
      qed
    qed
  qed
qed

text \<open>
  C2 (amended). For rows holding their eight columns, a quota \<open>N \<ge> 1\<close> and an offset
  \<open>k \<ge> 0\<close>: post-processing keeps, for each class, exactly the last \<open>N\<close> image groups
  of the accumulated insertion order (for offset \<open>k\<close> as for offset \<open>k + 1\<close>); the image
  ids accumulated with offset \<open>k\<close> are a prefix, in insertion order, of those accumulated
  with offset \<open>k + 1\<close> on the same stream; and the boxes of each image under offset
  \<open>k\<close> are a prefix of its boxes under offset \<open>k + 1\<close>.
\<close>

theorem collect_offset_window:
  assumes "\<forall>row\<in>set rows. 8 \<le> length row" and "1 \<le> N" and "0 \<le> k"
  shows "\<exists>st st' out out'.
      stream_rows cis (N * (k + 1)) (init_collector CLASS_NAMES) rows = Inr st
    \<and> stream_rows cis (N * (k + 1 + 1)) (init_collector CLASS_NAMES) rows = Inr st'
    \<and> collect CLASS_NAMES cis N k rows = Inr out
    \<and> collect CLASS_NAMES cis N (k + 1) rows = Inr out'
    \<and> (\<forall>c\<in>set CLASS_NAMES.
         class_bbs_out out c = drop (length (class_bbs st c) - nat N) (class_bbs st c)
       \<and> class_bbs_out out' c = drop (length (class_bbs st' c) - nat N) (class_bbs st' c)
       \<and> prefix (map fst (class_bbs st c)) (map fst (class_bbs st' c))
       \<and> (\<forall>i. prefix (boxes_of (class_bbs st c) i) (boxes_of (class_bbs st' c) i)))"
proof -
  let ?a = "N * (k + 1)" and ?b = "N * (k + 1 + 1)"
  have ab: "?a \<le> ?b" using assms(2,3) by (intro mult_left_mono) auto
  from stream_rows_init[OF assms(1), of cis ?a CLASS_NAMES] obtain st where st:
    "stream_rows cis ?a (init_collector CLASS_NAMES) rows = Inr st"
    "\<And>c. (class_bbs st c, c \<in> set (unfilled_class_names st)) =
          class_run cis ?a c ([], c \<in> set CLASS_NAMES) rows"
    by blast
  from stream_rows_init[OF assms(1), of cis ?b CLASS_NAMES] obtain st' where st':
    "stream_rows cis ?b (init_collector CLASS_NAMES) rows = Inr st'"
    "\<And>c. (class_bbs st' c, c \<in> set (unfilled_class_names st')) =
          class_run cis ?b c ([], c \<in> set CLASS_NAMES) rows"
    by blast
  let ?out = "post_process N k CLASS_NAMES st" and ?out' = "post_process N (k + 1) CLASS_NAMES st'"
  have out: "collect CLASS_NAMES cis N k rows = Inr ?out"
    using st(1) by (simp add: collect_def)
  have out': "collect CLASS_NAMES cis N (k + 1) rows = Inr ?out'"
    using st'(1) by (simp add: collect_def)
  have each: "class_bbs_out ?out c = drop (length (class_bbs st c) - nat N) (class_bbs st c)
       \<and> class_bbs_out ?out' c = drop (length (class_bbs st' c) - nat N) (class_bbs st' c)
       \<and> prefix (map fst (class_bbs st c)) (map fst (class_bbs st' c))
       \<and> (\<forall>i. prefix (boxes_of (class_bbs st c) i) (boxes_of (class_bbs st' c) i))"
    if c: "c \<in> set CLASS_NAMES" for c
  proof -
    have a: "class_bbs st c = fst (class_run cis ?a c ([], c \<in> set CLASS_NAMES) rows)"
      using st(2)[of c] by (metis fst_conv)
    have b: "class_bbs st' c = fst (class_run cis ?b c ([], c \<in> set CLASS_NAMES) rows)"
      using st'(2)[of c] by (metis fst_conv)
    have "prefix (map fst (class_bbs st c)) (map fst (class_bbs st' c))
       \<and> (\<forall>i. prefix (boxes_of (class_bbs st c) i) (boxes_of (class_bbs st' c) i))"
      unfolding a b by (rule class_run_offsets[OF ab]) simp_all
    then show ?thesis
      using assms(2) by (simp add: class_bbs_out_post_process[OF c] py_slice_from_last)
  qed
  show ?thesis
    using st(1) st'(1) out out' each by blast
qed

theorem collect_offset_window_witness:
  "list_all (\<lambda>row. 8 \<le> length row) cat_rows \<and> (1::int) \<le> 1 \<and> (0::int) \<le> 0
   \<and> map_sum id (\<lambda>out. class_bbs_out out ''Cat'') (collect [''Cat''] example_class_id_sets 1 0 cat_rows)
       = Inr [(''img1'', [[''Cat'', ''0.1'', ''0.2'', ''0.3'', ''0.4'']])]
   \<and> map_sum id (\<lambda>out. class_bbs_out out ''Cat'') (collect [''Cat''] example_class_id_sets 1 1 cat_rows)
       = Inr [(''img2'', [[''Cat'', ''0.0'', ''1.0'', ''0.0'', ''1.0'']])]
   \<and> (\<exists>st st' out out'.
      stream_rows example_class_id_sets (1 * (0 + 1)) (init_collector [''Cat'']) cat_rows = Inr st
    \<and> stream_rows example_class_id_sets (1 * (0 + 1 + 1)) (init_collector [''Cat'']) cat_rows = Inr st'
    \<and> collect [''Cat''] example_class_id_sets 1 0 cat_rows = Inr out
    \<and> collect [''Cat''] example_class_id_sets 1 (0 + 1) cat_rows = Inr out'
    \<and> (\<forall>c\<in>set [''Cat''].
         class_bbs_out out c = drop (length (class_bbs st c) - nat 1) (class_bbs st c)
       \<and> class_bbs_out out' c = drop (length (class_bbs st' c) - nat 1) (class_bbs st' c)
       \<and> prefix (map fst (class_bbs st c)) (map fst (class_bbs st' c))
       \<and> (\<forall>i. prefix (boxes_of (class_bbs st c) i) (boxes_of (class_bbs st' c) i))))"
proof -
  have 1: "(1::int) \<le> 1" and 2: "(0::int) \<le> 0" by simp_all
  have 3: "map_sum id (\<lambda>out. class_bbs_out out ''Cat'')
        (collect [''Cat''] example_class_id_sets 1 0 cat_rows)
       = Inr [(''img1'', [[''Cat'', ''0.1'', ''0.2'', ''0.3'', ''0.4'']])]"
    by code_simp
  have 4: "map_sum id (\<lambda>out. class_bbs_out out ''Cat'')
        (collect [''Cat''] example_class_id_sets 1 1 cat_rows)
       = Inr [(''img2'', [[''Cat'', ''0.0'', ''1.0'', ''0.0'', ''1.0'']])]"
    by code_simp
  show ?thesis
    using collect_offset_window[OF cat_rows_wf 1 2, of example_class_id_sets "[''Cat'']"]
      cat_rows_wf 3 4 by (simp add: list_all_iff)
qed

text \<open>
  C2 as stated fails for the image groups themselves: with quota 1, the groups accumulated
  with offset 0 are not a prefix of those accumulated with offset 1, because the run with
  offset 1 goes on collecting boxes for the image at which the run with offset 0 stopped.
\<close>

theorem accumulated_groups_not_prefix:
  "accumulated [''Cat''] example_class_id_sets 1 0 cat_rows ''Cat'' =
     [(''img1'', [[''Cat'', ''0.1'', ''0.2'', ''0.3'', ''0.4'']])]
   \<and> accumulated [''Cat''] example_class_id_sets 1 1 cat_rows ''Cat'' =
     [(''img1'', [[''Cat'', ''0.1'', ''0.2'', ''0.3'', ''0.4''],
                  [''Cat'', ''0.5'', ''0.6'', ''0.7'', ''0.8'']]),
      (''img2'', [[''Cat'', ''0.0'', ''1.0'', ''0.0'', ''1.0'']])]
   \<and> \<not> prefix (accumulated [''Cat''] example_class_id_sets 1 0 cat_rows ''Cat'')
         (accumulated [''Cat''] example_class_id_sets 1 1 cat_rows ''Cat'')"
  by code_simp

subsection \<open>The warning\<close>

text \<open>
  C8 (amended). For rows holding their eight columns the collection never fails. When the
  stream ends with unfilled classes (for \<open>N \<ge> 1\<close> and offset \<open>\<ge> 0\<close>: the requested
  classes holding fewer than \<open>N * (offset + 1)\<close> images), the warning lists each
  unfilled class once with the number of images found for it, beside \<open>N\<close>, \<open>offset + 1\<close>
  and \<open>N * (offset + 1)\<close>; with no unfilled class there is no warning. The collected
  groups then go through the usual trimming (the slice \<open>[-N:]\<close> of the groups of each
  class): a class holding at most \<open>N\<close> images keeps all its groups.
\<close>

theorem collect_quota_unmet:
  assumes "\<forall>row\<in>set rows. 8 \<le> length row"
  shows "\<exists>st out. stream_rows cis (N * (OFFSET + 1)) (init_collector CLASS_NAMES) rows = Inr st
     \<and> collect CLASS_NAMES cis N OFFSET rows = Inr out
     \<and> warning out =
         (if unfilled_class_names st = [] then None
          else Some \<lparr>examples_per_class = N, batches = OFFSET + 1,
                 images_needed = N * (OFFSET + 1),
                 classes_found = map (\<lambda>c. (c, length (class_bbs st c))) (unfilled_class_names st)\<rparr>)
     \<and> distinct (unfilled_class_names st)
     \<and> (1 \<le> N \<and> 0 \<le> OFFSET \<longrightarrow> set (unfilled_class_names st) =
           {c \<in> set CLASS_NAMES. int (length (class_bbs st c)) < N * (OFFSET + 1)})
     \<and> (\<forall>c\<in>set CLASS_NAMES. class_bbs_out out c = py_slice_from (- N) (class_bbs st c)
           \<and> (int (length (class_bbs st c)) \<le> N \<longrightarrow> class_bbs_out out c = class_bbs st c))"
proof -
  let ?needed = "N * (OFFSET + 1)"
  from stream_rows_init[OF assms, of cis ?needed CLASS_NAMES] obtain st where st:
    "stream_rows cis ?needed (init_collector CLASS_NAMES) rows = Inr st"
    "distinct (unfilled_class_names st)"
    by blast
  let ?out = "post_process N OFFSET CLASS_NAMES st"
  have out: "collect CLASS_NAMES cis N OFFSET rows = Inr ?out"
    using st(1) by (simp add: collect_def)
  have w: "warning ?out =
         (if unfilled_class_names st = [] then None
          else Some \<lparr>examples_per_class = N, batches = OFFSET + 1,
                 images_needed = N * (OFFSET + 1),
                 classes_found = map (\<lambda>c. (c, length (class_bbs st c))) (unfilled_class_names st)\<rparr>)"
    by (simp add: post_process_def Let_def warn_unfilled_def)
  have u: "set (unfilled_class_names st) =
      {c \<in> set CLASS_NAMES. int (length (class_bbs st c)) < ?needed}"
    if "1 \<le> N" "0 \<le> OFFSET"
  proof -
    from stream_rows_init_quota[OF assms needed_pos[OF that], of cis CLASS_NAMES]
    obtain st2 where
      "stream_rows cis ?needed (init_collector CLASS_NAMES) rows = Inr st2"
      "set (unfilled_class_names st2) =
        {c \<in> set CLASS_NAMES. int (length (class_bbs st2 c)) < ?needed}"
      by blast
    then show ?thesis using st(1) by simp
  qed
  have k: "class_bbs_out ?out c = py_slice_from (- N) (class_bbs st c)
      \<and> (int (length (class_bbs st c)) \<le> N \<longrightarrow> class_bbs_out ?out c = class_bbs st c)"
    if c: "c \<in> set CLASS_NAMES" for c
    by (simp add: class_bbs_out_post_process[OF c] py_slice_from_short)
  have K: "\<forall>c\<in>set CLASS_NAMES. class_bbs_out ?out c = py_slice_from (- N) (class_bbs st c)
      \<and> (int (length (class_bbs st c)) \<le> N \<longrightarrow> class_bbs_out ?out c = class_bbs st c)"
    using k by blast
  have U: "1 \<le> N \<and> 0 \<le> OFFSET \<longrightarrow> set (unfilled_class_names st) =
      {c \<in> set CLASS_NAMES. int (length (class_bbs st c)) < ?needed}"
    using u by blast
  show ?thesis
    by (intro exI[of _ st] exI[of _ ?out] conjI st(1) out w st(2) U K)
qed

lemma cat_rows_unfilled_3_0:
  "map_sum id unfilled_class_names
     (stream_rows example_class_id_sets (3 * (0 + 1)) (init_collector [''Cat'']) cat_rows)
   = Inr [''Cat'']"
  by code_simp

lemma cat_rows_accumulated_3_0:
  "accumulated [''Cat''] example_class_id_sets 3 0 cat_rows ''Cat'' =
     [(''img1'', [[''Cat'', ''0.1'', ''0.2'', ''0.3'', ''0.4''], [''Cat'', ''0.5'', ''0.6'', ''0.7'', ''0.8'']]),
      (''img2'', [[''Cat'', ''0.0'', ''1.0'', ''0.0'', ''1.0'']])]"
  by code_simp

theorem collect_quota_unmet_witness:
  "list_all (\<lambda>row. 8 \<le> length row) cat_rows \<and> (1::int) \<le> 3 \<and> (0::int) \<le> 0
   \<and> int (length (accumulated [''Cat''] example_class_id_sets 3 0 cat_rows ''Cat'')) \<le> 3
   \<and> (\<exists>st out. stream_rows example_class_id_sets (3 * (0 + 1)) (init_collector [''Cat'']) cat_rows = Inr st
     \<and> collect [''Cat''] example_class_id_sets 3 0 cat_rows = Inr out
     \<and> unfilled_class_names st = [''Cat'']
     \<and> warning out = Some \<lparr>examples_per_class = 3, batches = 1, images_needed = 3,
                 classes_found = [(''Cat'', 2)]\<rparr>
     \<and> class_bbs_out out ''Cat'' = class_bbs st ''Cat'')"
proof -
  from collect_quota_unmet[OF cat_rows_wf, of example_class_id_sets 3 0 "[''Cat'']"]
  obtain st out where so:
    "stream_rows example_class_id_sets (3 * (0 + 1)) (init_collector [''Cat'']) cat_rows = Inr st"
    "collect [''Cat''] example_class_id_sets 3 0 cat_rows = Inr out"
    "warning out =
         (if unfilled_class_names st = [] then None
          else Some \<lparr>examples_per_class = 3, batches = 0 + 1,
                 images_needed = 3 * (0 + 1),
                 classes_found = map (\<lambda>c. (c, length (class_bbs st c))) (unfilled_class_names st)\<rparr>)"
    "int (length (class_bbs st ''Cat'')) \<le> 3 \<longrightarrow> class_bbs_out out ''Cat'' = class_bbs st ''Cat''"
    by auto
  have u: "unfilled_class_names st = [''Cat'']"
    using cat_rows_unfilled_3_0 so(1) by simp
  have g: "class_bbs st ''Cat'' = accumulated [''Cat''] example_class_id_sets 3 0 cat_rows ''Cat''"
    using so(1) by (simp add: accumulated_def)
  have l: "length (class_bbs st ''Cat'') = 2"
    unfolding g by (simp add: cat_rows_accumulated_3_0)
  have "warning out = Some \<lparr>examples_per_class = 3, batches = 1, images_needed = 3,
                 classes_found = [(''Cat'', 2)]\<rparr>"
    using so(3) u l by simp
  moreover have "class_bbs_out out ''Cat'' = class_bbs st ''Cat''"
    using so(4) l by simp
  ultimately show ?thesis
    using so(1,2) u cat_rows_wf l g by (auto simp: list_all_iff)
qed

text \<open>
  C8 as stated fails at quota 1 and offset 2: the class has 2 of the 3 images needed, the
  warning names 2 (the images found) where the shortfall is 1, and of the two partially
  collected groups only the last is returned.
\<close>

theorem warning_reports_found_not_shortfall:
  "map_sum id warning (collect [''Cat''] example_class_id_sets 1 2 cat_rows)
     = Inr (Some \<lparr>examples_per_class = 1, batches = 3, images_needed = 3,
                   classes_found = [(''Cat'', 2)]\<rparr>)
   \<and> 1 * (2 + 1) - int (length (accumulated [''Cat''] example_class_id_sets 1 2 cat_rows ''Cat'')) = 1
   \<and> map_sum id (\<lambda>out. class_bbs_out out ''Cat'') (collect [''Cat''] example_class_id_sets 1 2 cat_rows)
     = Inr [(''img2'', [[''Cat'', ''0.0'', ''1.0'', ''0.0'', ''1.0'']])]
   \<and> accumulated [''Cat''] example_class_id_sets 1 2 cat_rows ''Cat'' =
     [(''img1'', [[''Cat'', ''0.1'', ''0.2'', ''0.3'', ''0.4''],
                  [''Cat'', ''0.5'', ''0.6'', ''0.7'', ''0.8'']]),
      (''img2'', [[''Cat'', ''0.0'', ''1.0'', ''0.0'', ''1.0'']])]"
  by code_simp

subsection \<open>The merged mapping\<close>

lemma post_process_merged:
  assumes "\<forall>c. distinct (map fst (class_bbs st c))"
  shows "distinct (map fst (bbs (post_process N OFFSET CLASS_NAMES st)))
    \<and> set (map fst (bbs (post_process N OFFSET CLASS_NAMES st))) =
        (\<Union>c\<in>set CLASS_NAMES.
           set (map fst (class_bbs_out (post_process N OFFSET CLASS_NAMES st) c)))
    \<and> (\<forall>i. boxes_of (bbs (post_process N OFFSET CLASS_NAMES st)) i =
          concat (map (\<lambda>c. boxes_of (class_bbs_out (post_process N OFFSET CLASS_NAMES st) c) i)
            (dict_keys CLASS_NAMES)))
    \<and> n_images (post_process N OFFSET CLASS_NAMES st) =
        card (\<Union>c\<in>set CLASS_NAMES.
           set (map fst (class_bbs_out (post_process N OFFSET CLASS_NAMES st) c)))"
proof -
  let ?names = "dict_keys CLASS_NAMES"
  let ?acc = "fold (trim_class N) ?names (class_bbs st, [])"
  let ?out = "post_process N OFFSET CLASS_NAMES st"
  have o: "bbs ?out = snd ?acc" "n_images ?out = length (snd ?acc)"
    by (simp_all add: post_process_def Let_def)
  have kept: "class_bbs_out ?out c = py_slice_from (- N) (class_bbs st c)"
    if "c \<in> set CLASS_NAMES" for c
    by (rule class_bbs_out_post_process[OF that])
  from snd_fold_trim_class[of ?names "(class_bbs st, [])" N]
  have s: "distinct (map fst (snd ?acc))"
    "fst ` set (snd ?acc) = (\<Union>c\<in>set CLASS_NAMES. fst ` set (py_slice_from (- N) (class_bbs st c)))"
    "\<And>i. boxes_of (snd ?acc) i =
        concat (map (\<lambda>c. boxes_of (py_slice_from (- N) (class_bbs st c)) i) ?names)"
    using assms by simp_all
  have 1: "distinct (map fst (bbs ?out))" using s(1) o(1) by simp
  have 2: "set (map fst (bbs ?out)) = (\<Union>c\<in>set CLASS_NAMES. set (map fst (class_bbs_out ?out c)))"
    using s(2) o(1) kept by simp
  have 3: "boxes_of (bbs ?out) i = concat (map (\<lambda>c. boxes_of (class_bbs_out ?out c) i) ?names)"
    for i
  proof -
    have m: "map (\<lambda>c. boxes_of (class_bbs_out ?out c) i) ?names
        = map (\<lambda>c. boxes_of (py_slice_from (- N) (class_bbs st c)) i) ?names"
      using kept by simp
    show ?thesis unfolding m o(1) by (rule s(3))
  qed
  have "n_images ?out = length (map fst (bbs ?out))" using o by simp
  also have "\<dots> = card (set (map fst (bbs ?out)))"
    using 1 by (metis distinct_card)
  finally have 4: "n_images ?out
      = card (\<Union>c\<in>set CLASS_NAMES. set (map fst (class_bbs_out ?out c)))"
    using 2 by simp
  show ?thesis using 1 2 3 4 by blast
qed

text \<open>
  C9. For rows holding their eight columns the collection returns; the merged mapping has
  one entry per image id that some class kept, the boxes of an image are the
  concatenation, in class order, of the boxes each class kept for it, and the reported
  count is the number of distinct image ids. On the three rows of the scenario (\<open>img1\<close>
  with the Boot id, \<open>img1\<close> with the Cat id, \<open>img2\<close> with the Boot id), quota 1 and
  offset 0, the merged mapping is \<open>img1\<close> with the Boot box followed by the Cat box, and
  the count is 1: \<open>img2\<close> is absent.
\<close>

theorem collect_merged:
  "((\<forall>row\<in>set rows. 8 \<le> length row) \<longrightarrow>
      (\<exists>out. collect CLASS_NAMES cis N OFFSET rows = Inr out
        \<and> distinct (map fst (bbs out))
        \<and> set (map fst (bbs out)) = (\<Union>c\<in>set CLASS_NAMES. set (map fst (class_bbs_out out c)))
        \<and> (\<forall>i. boxes_of (bbs out) i =
              concat (map (\<lambda>c. boxes_of (class_bbs_out out c) i) (dict_keys CLASS_NAMES)))
        \<and> n_images out = card (\<Union>c\<in>set CLASS_NAMES. set (map fst (class_bbs_out out c)))))
   \<and> map_sum id bbs (collect [''Boot'', ''Cat''] example_class_id_sets 1 0 example_rows)
       = Inr [(''img1'', [[''Boot'', ''0.1'', ''0.2'', ''0.3'', ''0.4''],
                          [''Cat'', ''0.5'', ''0.6'', ''0.7'', ''0.8'']])]
   \<and> map_sum id n_images (collect [''Boot'', ''Cat''] example_class_id_sets 1 0 example_rows)
       = Inr 1"
proof -
  have general: "\<exists>out. collect CLASS_NAMES cis N OFFSET rows = Inr out
        \<and> distinct (map fst (bbs out))
        \<and> set (map fst (bbs out)) = (\<Union>c\<in>set CLASS_NAMES. set (map fst (class_bbs_out out c)))
        \<and> (\<forall>i. boxes_of (bbs out) i =
              concat (map (\<lambda>c. boxes_of (class_bbs_out out c) i) (dict_keys CLASS_NAMES)))
        \<and> n_images out = card (\<Union>c\<in>set CLASS_NAMES. set (map fst (class_bbs_out out c)))"
    if wf: "\<forall>row\<in>set rows. 8 \<le> length row"
  proof -
    from stream_rows_init[OF wf, of cis "N * (OFFSET + 1)" CLASS_NAMES] obtain st where st:
      "stream_rows cis (N * (OFFSET + 1)) (init_collector CLASS_NAMES) rows = Inr st"
      "\<forall>c. distinct (map fst (class_bbs st c))"
      by blast
    have "collect CLASS_NAMES cis N OFFSET rows = Inr (post_process N OFFSET CLASS_NAMES st)"
      using st(1) by (simp add: collect_def)
    then show ?thesis
      using post_process_merged[OF st(2), of N OFFSET CLASS_NAMES] by blast
  qed
  have e1: "map_sum id bbs (collect [''Boot'', ''Cat''] example_class_id_sets 1 0 example_rows)
       = Inr [(''img1'', [[''Boot'', ''0.1'', ''0.2'', ''0.3'', ''0.4''],
                          [''Cat'', ''0.5'', ''0.6'', ''0.7'', ''0.8'']])]"
    by code_simp
  have e2: "map_sum id n_images (collect [''Boot'', ''Cat''] example_class_id_sets 1 0 example_rows)
       = Inr 1"
    by code_simp
  show ?thesis using general e1 e2 by blast
qed

theorem collect_merged_witness:
  "list_all (\<lambda>row. 8 \<le> length row) example_rows
   \<and> (\<exists>out. collect [''Boot'', ''Cat''] example_class_id_sets 1 0 example_rows = Inr out
        \<and> bbs out = [(''img1'', [[''Boot'', ''0.1'', ''0.2'', ''0.3'', ''0.4''],
                                  [''Cat'', ''0.5'', ''0.6'', ''0.7'', ''0.8'']])]
        \<and> boxes_of (bbs out) ''img1'' =
            boxes_of (class_bbs_out out ''Boot'') ''img1'' @ boxes_of (class_bbs_out out ''Cat'') ''img1''
        \<and> boxes_of (bbs out) ''img2'' = []
        \<and> n_images out = 1)"
proof -
  have dk: "dict_keys [''Boot'', ''Cat''] = [''Boot'', ''Cat'']"
    by (simp add: dict_keys_def)
  from collect_merged[of example_rows "[''Boot'', ''Cat'']" example_class_id_sets 1 0]
  obtain out where out:
    "collect [''Boot'', ''Cat''] example_class_id_sets 1 0 example_rows = Inr out"
    "\<forall>i. boxes_of (bbs out) i =
        concat (map (\<lambda>c. boxes_of (class_bbs_out out c) i) (dict_keys [''Boot'', ''Cat'']))"
    "map_sum id bbs (collect [''Boot'', ''Cat''] example_class_id_sets 1 0 example_rows)
       = Inr [(''img1'', [[''Boot'', ''0.1'', ''0.2'', ''0.3'', ''0.4''],
                          [''Cat'', ''0.5'', ''0.6'', ''0.7'', ''0.8'']])]"
    "map_sum id n_images (collect [''Boot'', ''Cat''] example_class_id_sets 1 0 example_rows)
       = Inr 1"
    using example_rows_wf by blast
  have b: "bbs out = [(''img1'', [[''Boot'', ''0.1'', ''0.2'', ''0.3'', ''0.4''],
                                  [''Cat'', ''0.5'', ''0.6'', ''0.7'', ''0.8'']])]"
    using out(1,3) by simp
  have n: "n_images out = 1" using out(1,4) by simp
  have 1: "boxes_of (bbs out) ''img1'' =
      boxes_of (class_bbs_out out ''Boot'') ''img1'' @ boxes_of (class_bbs_out out ''Cat'') ''img1''"
    using out(2) by (simp add: dk)
  have 2: "boxes_of (bbs out) ''img2'' = []"
    unfolding b by (simp add: boxes_of_def)
  show ?thesis
    using out(1) b n 1 2 example_rows_wf by (auto simp: list_all_iff)
qed


end
